theory Spec2Isabelle
  imports Main "HOL-Library.AList" "HOL-Library.Char_ord" "HOL-Library.List_Lexorder"
begin

section \<open>ConCat: the combination engine of \<^verbatim>\<open>concat/combine.py\<close>\<close>

text \<open>
  A shallow embedding of \<^verbatim>\<open>src/concat/combine.py\<close>. Python strings are \<^typ>\<open>string\<close>
  (code points below 256), Python lists are HOL lists, the lookup dictionary of a header
  is a map, the dictionaries keyed by path are association lists in insertion order.
  Every \<^verbatim>\<open>raise\<close> of the source is a value of \<^verbatim>\<open>error\<close>; the tabular reader and writer
  (pandas), the csv module and the file system are inputs of the model, collected in the
  record \<^verbatim>\<open>environment\<close>.
\<close>

subsection \<open>Errors\<close>

type_synonym path = string

datatype error =
    SchemaMismatch "string list" "string list"
      \<comment> \<open>ValueError "Schema mismatch under --schema strict. Base: .. Other: .."\<close>
  | EmptyIntersection
      \<comment> \<open>ValueError "No shared columns under --schema intersection."\<close>
  | UnknownPolicy string
      \<comment> \<open>ValueError "Unknown schema policy: .."\<close>
  | IndexError
      \<comment> \<open>\<^verbatim>\<open>headers_list[0]\<close> on an empty list\<close>
  | KeyError string
      \<comment> \<open>a dictionary or column lookup with an absent key\<close>
  | AlreadyExists string
      \<comment> \<open>ValueError of \<^verbatim>\<open>DataFrame.insert\<close>: the column name is taken\<close>
  | DelimiterConflict "char list"
      \<comment> \<open>SystemExit "Inconsistent delimiters detected: .."\<close>
  | EmptyHeaders "string list"
      \<comment> \<open>SystemExit "Could not read header row from: .."\<close>
  | MissingColumns path "string list"
      \<comment> \<open>SystemExit "File '..': missing requested columns .. under --missing-policy error"\<close>
  | NoUsableFiles
      \<comment> \<open>SystemExit "No files left after applying --columns and --missing-policy skip"\<close>
  | NoInputFiles
      \<comment> \<open>SystemExit "No input files found."\<close>
  | BadMaxWorkers
      \<comment> \<open>ValueError "max_workers must be greater than 0" of \<^verbatim>\<open>ThreadPoolExecutor\<close>\<close>
  | External string
      \<comment> \<open>an exception raised inside a library call: I/O error, parser error, KeyboardInterrupt\<close>

subsection \<open>Python string operations\<close>

definition is_space :: "char \<Rightarrow> bool" where
  \<comment> \<open>\<^verbatim>\<open>str.isspace\<close> on the code points below 256\<close>
  "is_space c = ((of_char c :: nat) \<in> {9, 10, 11, 12, 13, 28, 29, 30, 31, 32, 133, 160})"

definition str_strip :: "string \<Rightarrow> string" where
  \<comment> \<open>\<^verbatim>\<open>str.strip()\<close>\<close>
  "str_strip s = rev (dropWhile is_space (rev (dropWhile is_space s)))"

definition lower_char :: "char \<Rightarrow> char" where
  "lower_char c =
     (let n = (of_char c :: nat) in
      if (65 \<le> n \<and> n \<le> 90) \<or> (192 \<le> n \<and> n \<le> 222 \<and> n \<noteq> 215)
      then char_of (n + 32) else c)"

definition str_lower :: "string \<Rightarrow> string" where
  \<comment> \<open>\<^verbatim>\<open>str.lower()\<close> on the code points below 256\<close>
  "str_lower s = map lower_char s"

fun str_split :: "char \<Rightarrow> string \<Rightarrow> string list" where
  \<comment> \<open>\<^verbatim>\<open>s.split(delim)\<close> for a separator of one character\<close>
  "str_split d [] = [[]]"
| "str_split d (c # cs) =
     (if c = d then [] # str_split d cs
      else (case str_split d cs of
              [] \<Rightarrow> [[c]]
            | w # ws \<Rightarrow> (c # w) # ws))"

fun str_join :: "string \<Rightarrow> string list \<Rightarrow> string" where
  \<comment> \<open>\<^verbatim>\<open>sep.join(parts)\<close>\<close>
  "str_join sep [] = []"
| "str_join sep [x] = x"
| "str_join sep (x # y # ys) = x @ sep @ str_join sep (y # ys)"

subsection \<open>Delimiter sniffing\<close>

definition SNIFF_CANDIDATES :: "char list" where
  "SNIFF_CANDIDATES = [CHR '','', CHR 0x09, CHR '';'', CHR ''|'']"

definition SUPPORTED_DELIMS :: "(string \<times> char) list" where
  "SUPPORTED_DELIMS =
     [(''comma'', CHR '',''), (''tab'', CHR 0x09), (''semicolon'', CHR '';''), (''pipe'', CHR ''|'')]"

text \<open>
  \<^verbatim>\<open>read_head_lines\<close>: the open file is the list of the lines \<^verbatim>\<open>readline\<close> will return;
  at the end of the file \<^verbatim>\<open>readline\<close> returns the empty string and the loop breaks.
\<close>

fun read_lines_loop :: "string list \<Rightarrow> nat \<Rightarrow> string list" where
  "read_lines_loop fh 0 = []"
| "read_lines_loop [] (Suc k) = []"
| "read_lines_loop (line # fh) (Suc k) =
     (if line = [] then [] else line # read_lines_loop fh k)"

definition read_head_lines :: "string list \<Rightarrow> int \<Rightarrow> string list" where
  "read_head_lines fh n = read_lines_loop fh (nat n)"

text \<open>
  \<^verbatim>\<open>collections.Counter\<close> keeps its keys in the order of first insertion;
  \<^verbatim>\<open>most_common(1)\<close> is \<^verbatim>\<open>max\<close> over the items by count, which keeps the first of
  several maximal items.
\<close>

fun counter_add :: "nat \<Rightarrow> (nat \<times> nat) list \<Rightarrow> (nat \<times> nat) list" where
  "counter_add x [] = [(x, 1)]"
| "counter_add x ((k, c) # items) =
     (if k = x then (k, c + 1) # items else (k, c) # counter_add x items)"

definition Counter :: "nat list \<Rightarrow> (nat \<times> nat) list" where
  "Counter xs = foldl (\<lambda>c x. counter_add x c) [] xs"

fun max_by_count :: "(nat \<times> nat) \<Rightarrow> (nat \<times> nat) list \<Rightarrow> (nat \<times> nat)" where
  "max_by_count best [] = best"
| "max_by_count best (it # items) =
     max_by_count (if snd best < snd it then it else best) items"

definition most_common1 :: "(nat \<times> nat) list \<Rightarrow> (nat \<times> nat) option" where
  "most_common1 c = (case c of [] \<Rightarrow> None | it # items \<Rightarrow> Some (max_by_count it items))"

fun field_counts :: "char \<Rightarrow> string list \<Rightarrow> nat list" where
  "field_counts delim [] = []"
| "field_counts delim (ln # lines) =
     (let ln' = str_strip ln in
      if ln' = [] then field_counts delim lines
      else length (str_split delim ln') # field_counts delim lines)"

definition score_gt :: "int \<times> int \<Rightarrow> int \<times> int \<Rightarrow> bool" where
  \<comment> \<open>Python's \<^verbatim>\<open>>\<close> on pairs of integers\<close>
  "score_gt a b = (fst b < fst a \<or> (fst a = fst b \<and> snd b < snd a))"

definition delim_score :: "char \<Rightarrow> string list \<Rightarrow> (int \<times> int) option" where
  \<comment> \<open>the score of one candidate; \<^verbatim>\<open>None\<close> where the loop body does \<^verbatim>\<open>continue\<close>\<close>
  "delim_score delim lines =
     (case most_common1 (Counter (field_counts delim lines)) of
        None \<Rightarrow> None
      | Some (mode_val, mode_count) \<Rightarrow> Some (int mode_count, int mode_val))"

fun sniff_loop ::
  "string list \<Rightarrow> char list \<Rightarrow> char option \<times> (int \<times> int) \<Rightarrow> char option \<times> (int \<times> int)" where
  "sniff_loop lines [] st = st"
| "sniff_loop lines (delim # rest) (best_delim, best_score) =
     (case delim_score delim lines of
        None \<Rightarrow> sniff_loop lines rest (best_delim, best_score)
      | Some score \<Rightarrow>
          if score_gt score best_score then sniff_loop lines rest (Some delim, score)
          else sniff_loop lines rest (best_delim, best_score))"

definition sniff_delimiter_from_lines ::
  "(string \<Rightarrow> string \<Rightarrow> char option) \<Rightarrow> string list \<Rightarrow> char" where
  \<comment> \<open>\<^verbatim>\<open>csv_sniff sample delimiters\<close> is \<^verbatim>\<open>csv.Sniffer().sniff(..).delimiter\<close>,
      \<^verbatim>\<open>None\<close> when it raises\<close>
  "sniff_delimiter_from_lines csv_sniff lines =
     (case fst (sniff_loop lines SNIFF_CANDIDATES (None, (- 1, - 1))) of
        None \<Rightarrow>
          (case csv_sniff (str_join [CHR 0x0A] lines) SNIFF_CANDIDATES of
             Some d \<Rightarrow> d
           | None \<Rightarrow> CHR '','')
      | Some best_delim \<Rightarrow> best_delim)"

subsection \<open>Header reading\<close>

fun peek_header :: "string list list \<Rightarrow> string list" where
  \<comment> \<open>the argument is the sequence of rows \<^verbatim>\<open>csv.reader\<close> yields for the file\<close>
  "peek_header [] = []"
| "peek_header (row # rows) =
     (if row \<noteq> [] \<and> (\<exists>cell\<in>set row. str_strip cell \<noteq> []) then map str_strip row
      else peek_header rows)"

subsection \<open>Schema reconciliation\<close>

fun strict_loop :: "string list \<Rightarrow> string list list \<Rightarrow> error + string list" where
  "strict_loop base [] = Inr base"
| "strict_loop base (hdrs # rest) =
     (if set hdrs \<noteq> set base then Inl (SchemaMismatch base hdrs)
      else strict_loop base rest)"

fun union_inner :: "string list \<Rightarrow> string set \<times> string list \<Rightarrow> string set \<times> string list" where
  "union_inner [] (seen, all_cols) = (seen, all_cols)"
| "union_inner (h # hs) (seen, all_cols) =
     (if h \<notin> seen then union_inner hs (insert h seen, all_cols @ [h])
      else union_inner hs (seen, all_cols))"

fun union_loop ::
  "string list list \<Rightarrow> string set \<times> string list \<Rightarrow> string set \<times> string list" where
  "union_loop [] st = st"
| "union_loop (hdrs # rest) st = union_loop rest (union_inner hdrs st)"

fun shared_loop :: "string list list \<Rightarrow> string set \<Rightarrow> string set" where
  "shared_loop [] shared = shared"
| "shared_loop (hdrs # rest) shared = shared_loop rest (shared \<inter> set hdrs)"

definition build_schema :: "string list list \<Rightarrow> string \<Rightarrow> error + string list" where
  "build_schema headers_list policy =
     (if policy = ''strict'' then
        (case headers_list of
           [] \<Rightarrow> Inl IndexError
         | base # rest \<Rightarrow> strict_loop base rest)
      else if policy = ''union'' then
        Inr (snd (union_loop headers_list ({}, [])))
      else if policy = ''intersection'' then
        (case headers_list of
           [] \<Rightarrow> Inl IndexError
         | h0 # rest \<Rightarrow>
             (let shared = shared_loop rest (set h0) in
              if shared = {} then Inl EmptyIntersection
              else Inr (filter (\<lambda>h. h \<in> shared) h0)))
      else Inl (UnknownPolicy policy))"

text \<open>
  The specification's wording of the union order, "first-seen order, deduplicated": keep
  the first occurrence of each name and drop the later ones.
\<close>

fun first_seen :: "'a list \<Rightarrow> 'a list" where
  "first_seen [] = []"
| "first_seen (x # xs) = x # first_seen (filter (\<lambda>y. y \<noteq> x) xs)"

subsection \<open>Column selection helpers\<close>

definition make_header_map :: "string list \<Rightarrow> bool \<Rightarrow> (string \<rightharpoonup> string)" where
  \<comment> \<open>a dict comprehension: a later entry with the same key replaces the earlier one\<close>
  "make_header_map headers case_insensitive =
     (if case_insensitive then foldl (\<lambda>m h. m(str_lower h \<mapsto> h)) Map.empty headers
      else foldl (\<lambda>m h. m(h \<mapsto> h)) Map.empty headers)"

fun resolve_loop ::
  "string list \<Rightarrow> (string \<rightharpoonup> string) \<Rightarrow> bool \<Rightarrow> string list \<times> string list
     \<Rightarrow> string list \<times> string list" where
  "resolve_loop [] header_map case_insensitive (found, missing) = (found, missing)"
| "resolve_loop (r # requested) header_map case_insensitive (found, missing) =
     (let key = (if case_insensitive then str_lower r else r) in
      case header_map key of
        Some v \<Rightarrow> resolve_loop requested header_map case_insensitive (found @ [v], missing)
      | None \<Rightarrow> resolve_loop requested header_map case_insensitive (found, missing @ [r]))"

definition resolve_requested_columns ::
  "string list \<Rightarrow> (string \<rightharpoonup> string) \<Rightarrow> bool \<Rightarrow> string list \<times> string list" where
  "resolve_requested_columns requested header_map case_insensitive =
     resolve_loop requested header_map case_insensitive ([], [])"

definition path_name :: "path \<Rightarrow> string" where
  \<comment> \<open>\<^verbatim>\<open>Path.name\<close>: the final component\<close>
  "path_name p = rev (takeWhile (\<lambda>c. c \<noteq> CHR ''/'') (rev p))"

definition path_stem :: "path \<Rightarrow> string" where
  \<comment> \<open>\<^verbatim>\<open>Path.stem\<close>: the name up to its last dot, when that dot is neither first nor last\<close>
  "path_stem p =
     (let name = path_name p;
          suffix = takeWhile (\<lambda>c. c \<noteq> CHR ''.'') (rev name);
          i = length name - length suffix - 1
      in if CHR ''.'' \<in> set name \<and> 0 < i \<and> suffix \<noteq> [] then take i name else name)"

definition source_value_for :: "path \<Rightarrow> string \<Rightarrow> string" where
  "source_value_for p mode =
     (if mode = ''name'' then path_name p
      else if mode = ''stem'' then path_stem p
      else if mode = ''path'' then p
      else path_name p)"

subsection \<open>Data frames\<close>

text \<open>
  A pandas \<^verbatim>\<open>DataFrame\<close> read with \<^verbatim>\<open>dtype=str\<close>: its columns in order, each a label
  with its cells, and the number of rows. A cell is \<^verbatim>\<open>None\<close> for \<^verbatim>\<open>pd.NA\<close>. Labels may
  repeat, as pandas allows.
\<close>

type_synonym cell = "string option"

record dataframe =
  df_cols :: "(string \<times> cell list) list"
  df_len :: nat

definition df_columns :: "dataframe \<Rightarrow> string list" where
  \<comment> \<open>\<^verbatim>\<open>df.columns\<close>\<close>
  "df_columns df = map fst (df_cols df)"

definition df_getitem :: "dataframe \<Rightarrow> string list \<Rightarrow> error + dataframe" where
  \<comment> \<open>\<^verbatim>\<open>df[labels]\<close>: for each label in turn every column that carries it; KeyError for
      an absent label\<close>
  "df_getitem df labels =
     (case filter (\<lambda>l. l \<notin> set (df_columns df)) labels of
        l # _ \<Rightarrow> Inl (KeyError l)
      | [] \<Rightarrow>
          Inr (df\<lparr>df_cols := concat (map (\<lambda>l. filter (\<lambda>c. fst c = l) (df_cols df)) labels)\<rparr>))"

definition df_setitem_na :: "dataframe \<Rightarrow> string \<Rightarrow> dataframe" where
  \<comment> \<open>\<^verbatim>\<open>df[col] = pd.NA\<close>: overwrite the columns labelled \<^verbatim>\<open>col\<close>, or append a new one\<close>
  "df_setitem_na df col =
     (if col \<in> set (df_columns df)
      then df\<lparr>df_cols :=
             map (\<lambda>c. if fst c = col then (col, replicate (df_len df) None) else c) (df_cols df)\<rparr>
      else df\<lparr>df_cols := df_cols df @ [(col, replicate (df_len df) None)]\<rparr>)"

definition df_rename :: "(string \<rightharpoonup> string) \<Rightarrow> dataframe \<Rightarrow> dataframe" where
  \<comment> \<open>\<^verbatim>\<open>df.rename(columns=rename_map, inplace=True)\<close>\<close>
  "df_rename rename_map df =
     df\<lparr>df_cols :=
          map (\<lambda>c. (case rename_map (fst c) of Some n \<Rightarrow> n | None \<Rightarrow> fst c, snd c)) (df_cols df)\<rparr>"

definition df_insert0 :: "string \<Rightarrow> string \<Rightarrow> dataframe \<Rightarrow> error + dataframe" where
  \<comment> \<open>\<^verbatim>\<open>df.insert(0, name, value)\<close> with a scalar value\<close>
  "df_insert0 name v df =
     (if name \<in> set (df_columns df) then Inl (AlreadyExists name)
      else Inr (df\<lparr>df_cols := (name, replicate (df_len df) (Some v)) # df_cols df\<rparr>))"

definition df_rows :: "dataframe \<Rightarrow> cell list list" where
  "df_rows df = map (\<lambda>i. map (\<lambda>c. snd c ! i) (df_cols df)) [0..<df_len df]"

datatype out_line = Header "string list" | Row "cell list"

definition to_csv :: "dataframe \<Rightarrow> bool \<Rightarrow> string \<Rightarrow> out_line list option \<Rightarrow> out_line list option" where
  \<comment> \<open>\<^verbatim>\<open>df.to_csv(out_path, index=False, header=.., mode=..)\<close> on the content of the output
      file (\<^verbatim>\<open>None\<close>: no file yet)\<close>
  "to_csv df header mode out =
     Some ((if mode = ''w'' then [] else (case out of None \<Rightarrow> [] | Some ls \<Rightarrow> ls))
           @ (if header then [Header (df_columns df)] else [])
           @ map Row (df_rows df))"

subsection \<open>Core combination\<close>

definition read_cols_of :: "(string \<rightharpoonup> string) \<Rightarrow> string list \<Rightarrow> string list" where
  \<comment> \<open>lines 264-270\<close>
  "read_cols_of header_map schema_cols =
     map (\<lambda>c. let key = (if header_map c = None \<and> header_map (str_lower c) \<noteq> None
                        then str_lower c else c)
              in (case header_map key of Some v \<Rightarrow> v | None \<Rightarrow> c))
         schema_cols"

definition fillna_missing :: "(string \<times> string) list \<Rightarrow> dataframe \<Rightarrow> dataframe \<Rightarrow> dataframe" where
  \<comment> \<open>lines 287-289, over \<^verbatim>\<open>zip(schema_cols, read_cols)\<close>\<close>
  "fillna_missing pairs chunk df =
     foldl (\<lambda>d (outcol, filecol).
              if filecol \<notin> set (df_columns chunk) then df_setitem_na d outcol else d)
           df pairs"

definition rename_map_of :: "(string \<times> string) list \<Rightarrow> dataframe \<Rightarrow> (string \<rightharpoonup> string)" where
  \<comment> \<open>lines 290-294: a dict comprehension, the last pair for a key wins\<close>
  "rename_map_of pairs df =
     foldl (\<lambda>m (outcol, filecol).
              if filecol \<in> set (df_columns df) then m(filecol \<mapsto> outcol) else m)
           Map.empty pairs"

definition select_requested ::
  "string list \<Rightarrow> string list \<Rightarrow> string option \<Rightarrow> dataframe \<Rightarrow> error + dataframe" where
  \<comment> \<open>lines 284-295: the frame just before the loop that adds absent schema columns\<close>
  "select_requested schema_cols read_cols missing_policy chunk =
     (let present = filter (\<lambda>c. c \<in> set (df_columns chunk)) read_cols in
      case df_getitem chunk present of
        Inl e \<Rightarrow> Inl e
      | Inr df \<Rightarrow>
          (let df1 = (if missing_policy = Some ''fillna''
                      then fillna_missing (zip schema_cols read_cols) chunk df else df);
               rename_map = rename_map_of (zip schema_cols read_cols) df1
           in Inr (df_rename rename_map df1)))"

definition add_absent :: "string list \<Rightarrow> dataframe \<Rightarrow> dataframe" where
  \<comment> \<open>lines 296-298 and 301-303\<close>
  "add_absent schema_cols df =
     foldl (\<lambda>d col. if col \<notin> set (df_columns d) then df_setitem_na d col else d) df schema_cols"

record combine_args =
  ca_paths :: "path list"
  ca_per_file_delim :: "(path \<times> char) list"
  ca_schema_cols :: "string list"
  ca_chunksize :: int
  ca_write_header :: bool
  ca_columns_mode :: bool
  ca_per_file_header_maps :: "(path \<times> (string \<rightharpoonup> string)) list option"
  ca_missing_policy :: "string option"
  ca_add_source_col :: bool
  ca_source_col_name :: string
  ca_source_mode :: string

record merge_state =
  ms_mode :: string
  ms_total_rows :: nat
  ms_out :: "out_line list option"

definition shape_chunk :: "combine_args \<Rightarrow> string list option \<Rightarrow> dataframe \<Rightarrow> error + dataframe" where
  \<comment> \<open>lines 283-304\<close>
  "shape_chunk a read_cols chunk =
     (if ca_columns_mode a then
        (case read_cols of
           None \<Rightarrow> Inl (External ''TypeError'')
         | Some rc \<Rightarrow>
             (case select_requested (ca_schema_cols a) rc (ca_missing_policy a) chunk of
                Inl e \<Rightarrow> Inl e
              | Inr df \<Rightarrow> df_getitem (add_absent (ca_schema_cols a) df) (ca_schema_cols a)))
      else df_getitem (add_absent (ca_schema_cols a) chunk) (ca_schema_cols a))"

definition out_cols_of :: "combine_args \<Rightarrow> string list" where
  \<comment> \<open>line 254\<close>
  "out_cols_of a =
     (if ca_add_source_col a then ca_source_col_name a # ca_schema_cols a else ca_schema_cols a)"

definition emit_chunk :: "combine_args \<Rightarrow> path \<Rightarrow> dataframe \<Rightarrow> merge_state \<Rightarrow> error + merge_state" where
  \<comment> \<open>lines 306-318\<close>
  "emit_chunk a p df st =
     (case (if ca_add_source_col a then
              (case df_insert0 (ca_source_col_name a) (source_value_for p (ca_source_mode a)) df of
                 Inl e \<Rightarrow> Inl e
               | Inr d \<Rightarrow> df_getitem d (out_cols_of a))
            else Inr df) of
        Inl e \<Rightarrow> Inl e
      | Inr d \<Rightarrow>
          Inr (st\<lparr>ms_out := to_csv d (ca_write_header a \<and> ms_total_rows st = 0) (ms_mode st) (ms_out st),
                  ms_mode := ''a'',
                  ms_total_rows := ms_total_rows st + df_len d\<rparr>))"

fun chunk_loop ::
  "combine_args \<Rightarrow> path \<Rightarrow> string list option \<Rightarrow> dataframe list \<times> error option \<Rightarrow> merge_state
     \<Rightarrow> error option \<times> merge_state" where
  \<comment> \<open>lines 282-318; the reader yields the chunks and may then raise\<close>
  "chunk_loop a p read_cols ([], raised) st = (raised, st)"
| "chunk_loop a p read_cols (chunk # chunks, raised) st =
     (case shape_chunk a read_cols chunk of
        Inl e \<Rightarrow> (Some e, st)
      | Inr df \<Rightarrow>
          (case emit_chunk a p df st of
             Inl e \<Rightarrow> (Some e, st)
           | Inr st' \<Rightarrow> chunk_loop a p read_cols (chunks, raised) st'))"

fun file_loop ::
  "(path \<Rightarrow> char \<Rightarrow> int \<Rightarrow> dataframe list \<times> error option) \<Rightarrow> combine_args \<Rightarrow> path list
     \<Rightarrow> merge_state \<Rightarrow> error option \<times> merge_state" where
  \<comment> \<open>lines 256-318; \<^verbatim>\<open>read_csv p sep chunksize\<close> is what \<^verbatim>\<open>pd.read_csv\<close> yields\<close>
  "file_loop read_csv a [] st = (None, st)"
| "file_loop read_csv a (p # ps) st =
     (case map_of (ca_per_file_delim a) p of
        None \<Rightarrow> (Some (KeyError p), st)
      | Some sep \<Rightarrow>
          (case (if ca_columns_mode a then
                   (case ca_per_file_header_maps a of
                      None \<Rightarrow> Inl (External ''TypeError'')
                    | Some maps \<Rightarrow>
                        (case map_of maps p of
                           None \<Rightarrow> Inl (KeyError p)
                         | Some header_map \<Rightarrow>
                             Inr (Some (read_cols_of header_map (ca_schema_cols a)))))
                 else Inr None) of
             Inl e \<Rightarrow> (Some e, st)
           | Inr read_cols \<Rightarrow>
               (case chunk_loop a p read_cols (read_csv p sep (ca_chunksize a)) st of
                  (Some e, st') \<Rightarrow> (Some e, st')
                | (None, st') \<Rightarrow> file_loop read_csv a ps st')))"

definition combine_files ::
  "(path \<Rightarrow> char \<Rightarrow> int \<Rightarrow> dataframe list \<times> error option) \<Rightarrow> combine_args
     \<Rightarrow> out_line list option \<Rightarrow> error option \<times> out_line list option" where
  "combine_files read_csv a out =
     (case file_loop read_csv a (ca_paths a) \<lparr>ms_mode = ''w'', ms_total_rows = 0, ms_out = out\<rparr> of
        (raised, st) \<Rightarrow> (raised, ms_out st))"

subsection \<open>Entry point\<close>

text \<open>
  The fields of the argparse namespace that \<^verbatim>\<open>run\<close> reads after file discovery
  (\<^verbatim>\<open>verbose\<close> only prints).
\<close>

record args =
  a_normalize :: "string option"
  a_columns :: "string list option"
  a_case_insensitive :: bool
  a_missing_policy :: string
  a_schema :: string
  a_no_source_col :: bool
  a_source_col_name :: string
  a_source_col_mode :: string
  a_dry_run :: bool
  a_no_header :: bool
  a_chunksize :: int
  a_sample_rows :: int
  a_threads :: int

text \<open>
  What the libraries answer during one run: the lines \<^verbatim>\<open>readline\<close> returns for a path,
  the dialect sniffer of the csv module, the rows of \<^verbatim>\<open>csv.reader\<close>, the chunks of
  \<^verbatim>\<open>pd.read_csv\<close> (followed by an exception, if one is raised while iterating), the
  outcome of \<^verbatim>\<open>tempfile.mkdtemp\<close>, of one \<^verbatim>\<open>normalize_one\<close> task (the path of the
  rewritten copy) and of \<^verbatim>\<open>out_path.parent.mkdir\<close>. Two more answers concern the scratch
  workspace: \<^verbatim>\<open>e_store_interrupt\<close> is an exception (a KeyboardInterrupt) that arrives after
  \<^verbatim>\<open>mkdtemp\<close> has created the directory and before line 367 has stored its path in
  \<^verbatim>\<open>tmp_workspace\<close>; \<^verbatim>\<open>e_rmtree p\<close> tells whether \<^verbatim>\<open>shutil.rmtree(p, ignore_errors=True)\<close>
  removes the directory, or fails and has its error ignored.
\<close>

record environment =
  e_readlines :: "path \<Rightarrow> string list"
  e_csv_sniff :: "string \<Rightarrow> string \<Rightarrow> char option"
  e_csv_rows :: "path \<Rightarrow> char \<Rightarrow> string list list"
  e_read_csv :: "path \<Rightarrow> char \<Rightarrow> int \<Rightarrow> dataframe list \<times> error option"
  e_mkdtemp :: "error + path"
  e_normalize_one :: "path \<Rightarrow> path \<Rightarrow> char \<Rightarrow> char \<Rightarrow> error + path"
  e_mkdir :: "error option"
  e_store_interrupt :: "error option"
  e_rmtree :: "path \<Rightarrow> bool"

text \<open>The part of the file system a run changes: scratch directories and the output file.\<close>

record fs =
  fs_dirs :: "path set"
  fs_out :: "out_line list option"

definition sniff_file_delimiter :: "environment \<Rightarrow> path \<Rightarrow> int \<Rightarrow> char" where
  "sniff_file_delimiter E p sample_rows =
     sniff_delimiter_from_lines (e_csv_sniff E) (read_head_lines (e_readlines E p) sample_rows)"

fun sniff_files ::
  "environment \<Rightarrow> int \<Rightarrow> path list \<Rightarrow> (path \<times> char) list \<times> (path \<times> string list) list
     \<Rightarrow> (path \<times> char) list \<times> (path \<times> string list) list" where
  \<comment> \<open>lines 348-355\<close>
  "sniff_files E n [] st = st"
| "sniff_files E n (p # ps) (per_file_delim, per_file_headers) =
     (let delim = sniff_file_delimiter E p n in
      sniff_files E n ps
        (AList.update p delim per_file_delim,
         AList.update p (peek_header (e_csv_rows E p delim)) per_file_headers))"

fun normalize_all ::
  "environment \<Rightarrow> path \<Rightarrow> (path \<times> char) list \<Rightarrow> char \<Rightarrow> path list \<Rightarrow> error + path list" where
  \<comment> \<open>lines 370-384: the results are collected in submission order, the first failed
      task raises\<close>
  "normalize_all E ws per_file_delim target [] = Inr []"
| "normalize_all E ws per_file_delim target (p # ps) =
     (case map_of per_file_delim p of
        None \<Rightarrow> Inl (KeyError p)
      | Some from_delim \<Rightarrow>
          (case e_normalize_one E p ws from_delim target of
             Inl e \<Rightarrow> Inl e
           | Inr dst \<Rightarrow>
               (case normalize_all E ws per_file_delim target ps of
                  Inl e \<Rightarrow> Inl e
                | Inr normalized \<Rightarrow> Inr (dst # normalized))))"

definition normalize_phase ::
  "environment \<Rightarrow> args \<Rightarrow> path list \<Rightarrow> (path \<times> char) list \<Rightarrow> (path \<times> string list) list \<Rightarrow> fs
     \<Rightarrow> (error + path list \<times> (path \<times> char) list \<times> (path \<times> string list) list)
         \<times> path option \<times> fs" where
  \<comment> \<open>lines 357-394; the second component is the variable \<^verbatim>\<open>tmp_workspace\<close>. An
      absent or empty \<^verbatim>\<open>args.normalize\<close> is false; paths are sorted as strings. Line 367
      is two steps, the creation of the directory and the store of its path; line 370
      raises when \<^verbatim>\<open>args.threads\<close> is not positive\<close>
  "normalize_phase E ar paths per_file_delim per_file_headers f =
     (let delims = remdups (map snd per_file_delim) in
      if 1 < length delims then
        (case (case a_normalize ar of None \<Rightarrow> None | Some nm \<Rightarrow> if nm = [] then None else Some nm) of
           None \<Rightarrow> (Inl (DelimiterConflict (sort delims)), None, f)
         | Some nm \<Rightarrow>
             (case map_of SUPPORTED_DELIMS nm of
                None \<Rightarrow> (Inl (KeyError nm), None, f)
              | Some target \<Rightarrow>
                  (case e_mkdtemp E of
                     Inl e \<Rightarrow> (Inl e, None, f)
                   | Inr ws \<Rightarrow>
                       (let f1 = f\<lparr>fs_dirs := insert ws (fs_dirs f)\<rparr> in
                        case e_store_interrupt E of
                          Some e \<Rightarrow> (Inl e, None, f1)
                        | None \<Rightarrow>
                            if a_threads ar \<le> 0 then (Inl BadMaxWorkers, Some ws, f1)
                            else
                              (case normalize_all E ws per_file_delim target paths of
                                 Inl e \<Rightarrow> (Inl e, Some ws, f1)
                               | Inr normalized \<Rightarrow>
                                   (let paths' = sort normalized in
                                    (Inr (paths',
                                          foldl (\<lambda>d p. AList.update p target d) [] paths',
                                          foldl (\<lambda>d p. AList.update p
                                                         (peek_header (e_csv_rows E p target)) d)
                                                [] paths'),
                                     Some ws, f1)))))))
      else (Inr (paths, per_file_delim, per_file_headers), None, f))"

fun columns_loop ::
  "string list \<Rightarrow> bool \<Rightarrow> string \<Rightarrow> (path \<times> string list) list \<Rightarrow> path list
     \<Rightarrow> (path \<times> (string \<rightharpoonup> string)) list \<times> path list \<times> (string \<times> string list) list
     \<Rightarrow> error + (path \<times> (string \<rightharpoonup> string)) list \<times> path list \<times> (string \<times> string list) list" where
  \<comment> \<open>lines 413-428; the state is \<^verbatim>\<open>per_file_header_maps\<close>, \<^verbatim>\<open>usable_paths\<close>, \<^verbatim>\<open>skipped\<close>\<close>
  "columns_loop requested ci policy per_file_headers [] st = Inr st"
| "columns_loop requested ci policy per_file_headers (p # ps) (maps, usable_paths, skipped) =
     (case map_of per_file_headers p of
        None \<Rightarrow> Inl (KeyError p)
      | Some hdrs \<Rightarrow>
          (let hmap = make_header_map hdrs ci;
               missing = snd (resolve_requested_columns requested hmap ci)
           in if missing \<noteq> [] \<and> policy = ''error'' then Inl (MissingColumns p missing)
              else if missing \<noteq> [] \<and> policy = ''skip'' then
                columns_loop requested ci policy per_file_headers ps
                  (maps, usable_paths, skipped @ [(path_name p, missing)])
              else
                columns_loop requested ci policy per_file_headers ps
                  (AList.update p hmap maps, usable_paths @ [p], skipped)))"

definition select_columns ::
  "string list \<Rightarrow> bool \<Rightarrow> string \<Rightarrow> (path \<times> string list) list \<Rightarrow> path list
     \<Rightarrow> error + (path \<times> (string \<rightharpoonup> string)) list \<times> path list \<times> string list" where
  \<comment> \<open>lines 407-439; the result is \<^verbatim>\<open>per_file_header_maps\<close>, \<^verbatim>\<open>paths\<close>, \<^verbatim>\<open>schema_cols\<close>\<close>
  "select_columns requested ci policy per_file_headers paths =
     (case columns_loop requested ci policy per_file_headers paths ([], [], []) of
        Inl e \<Rightarrow> Inl e
      | Inr (maps, usable_paths, skipped) \<Rightarrow>
          if usable_paths = [] then Inl NoUsableFiles
          else Inr (maps, usable_paths, requested))"

fun headers_of :: "(path \<times> string list) list \<Rightarrow> path list \<Rightarrow> error + string list list" where
  \<comment> \<open>line 441\<close>
  "headers_of per_file_headers [] = Inr []"
| "headers_of per_file_headers (p # ps) =
     (case map_of per_file_headers p of
        None \<Rightarrow> Inl (KeyError p)
      | Some h \<Rightarrow>
          (case headers_of per_file_headers ps of
             Inl e \<Rightarrow> Inl e
           | Inr hs \<Rightarrow> Inr (h # hs)))"

definition columns_mode_of :: "args \<Rightarrow> bool" where
  \<comment> \<open>line 404\<close>
  "columns_mode_of ar = (case a_columns ar of None \<Rightarrow> False | Some cs \<Rightarrow> 0 < length cs)"

definition plan_schema ::
  "args \<Rightarrow> path list \<Rightarrow> (path \<times> string list) list
     \<Rightarrow> error + (path \<times> (string \<rightharpoonup> string)) list option \<times> path list \<times> string list" where
  \<comment> \<open>lines 404-445\<close>
  "plan_schema ar paths per_file_headers =
     (if columns_mode_of ar then
        (case select_columns (case a_columns ar of Some cs \<Rightarrow> cs | None \<Rightarrow> [])
                (a_case_insensitive ar) (a_missing_policy ar) per_file_headers paths of
           Inl e \<Rightarrow> Inl e
         | Inr (maps, usable_paths, schema_cols) \<Rightarrow> Inr (Some maps, usable_paths, schema_cols))
      else
        (case headers_of per_file_headers paths of
           Inl e \<Rightarrow> Inl e
         | Inr headers_list \<Rightarrow>
             (case build_schema headers_list (a_schema ar) of
                Inl e \<Rightarrow> Inl e
              | Inr schema_cols \<Rightarrow> Inr (None, paths, schema_cols))))"

definition merge_phase ::
  "environment \<Rightarrow> args \<Rightarrow> path list \<Rightarrow> (path \<times> char) list \<Rightarrow> (path \<times> string list) list \<Rightarrow> fs
     \<Rightarrow> error option \<times> fs" where
  \<comment> \<open>lines 396-490\<close>
  "merge_phase E ar paths per_file_delim per_file_headers f =
     (if \<exists>h\<in>set (map snd per_file_headers). length h = 0 then
        (Some (EmptyHeaders (map path_name (filter (\<lambda>p. map_of per_file_headers p = Some []) paths))), f)
      else
        (case plan_schema ar paths per_file_headers of
           Inl e \<Rightarrow> (Some e, f)
         | Inr (maps, paths', schema_cols) \<Rightarrow>
             if a_dry_run ar then (None, f)
             else
               (case e_mkdir E of
                  Some e \<Rightarrow> (Some e, f)
                | None \<Rightarrow>
                    (case combine_files (e_read_csv E)
                            \<lparr>ca_paths = paths',
                             ca_per_file_delim = per_file_delim,
                             ca_schema_cols = schema_cols,
                             ca_chunksize = a_chunksize ar,
                             ca_write_header = (\<not> a_no_header ar),
                             ca_columns_mode = columns_mode_of ar,
                             ca_per_file_header_maps = maps,
                             ca_missing_policy =
                               (if columns_mode_of ar then Some (a_missing_policy ar) else None),
                             ca_add_source_col = (\<not> a_no_source_col ar),
                             ca_source_col_name = a_source_col_name ar,
                             ca_source_mode = a_source_col_mode ar\<rparr>
                            (fs_out f) of
                       (raised, out) \<Rightarrow> (raised, f\<lparr>fs_out := out\<rparr>)))))"

definition run_try ::
  "environment \<Rightarrow> args \<Rightarrow> path list \<Rightarrow> (path \<times> char) list \<Rightarrow> (path \<times> string list) list \<Rightarrow> fs
     \<Rightarrow> error option \<times> path option \<times> fs" where
  \<comment> \<open>the body of the \<^verbatim>\<open>try\<close>, lines 361-490: the exception that leaves it (if any), the
      variable \<^verbatim>\<open>tmp_workspace\<close> and the file system at that moment\<close>
  "run_try E ar paths per_file_delim per_file_headers f =
     (case normalize_phase E ar paths per_file_delim per_file_headers f of
        (Inl e, tmp_workspace, f1) \<Rightarrow> (Some e, tmp_workspace, f1)
      | (Inr (paths', per_file_delim', per_file_headers'), tmp_workspace, f1) \<Rightarrow>
          (case merge_phase E ar paths' per_file_delim' per_file_headers' f1 of
             (raised, f2) \<Rightarrow> (raised, tmp_workspace, f2)))"

definition cleanup :: "environment \<Rightarrow> path option \<Rightarrow> fs \<Rightarrow> fs" where
  \<comment> \<open>the \<^verbatim>\<open>finally\<close> clause, lines 491-493: a removal that fails is ignored and leaves
      the directory\<close>
  "cleanup E tmp_workspace f =
     (case tmp_workspace of
        None \<Rightarrow> f
      | Some ws \<Rightarrow>
          if ws \<in> fs_dirs f then
            (if e_rmtree E ws then f\<lparr>fs_dirs := fs_dirs f - {ws}\<rparr> else f)
          else f)"

definition run :: "environment \<Rightarrow> args \<Rightarrow> path list \<Rightarrow> fs \<Rightarrow> error option \<times> fs" where
  \<comment> \<open>\<^verbatim>\<open>run\<close> from line 335 on; \<^verbatim>\<open>paths\<close> is the list that discovery and the extension
      filter (lines 334-341) produced\<close>
  "run E ar paths f =
     (if paths = [] then (Some NoInputFiles, f)
      else
        (case sniff_files E (a_sample_rows ar) paths ([], []) of
           (per_file_delim, per_file_headers) \<Rightarrow>
             (case run_try E ar paths per_file_delim per_file_headers f of
                (raised, tmp_workspace, f1) \<Rightarrow> (raised, cleanup E tmp_workspace f1))))"

subsection \<open>Notions used to state and prove the claims\<close>

definition missing_of :: "string list \<Rightarrow> bool \<Rightarrow> string list \<Rightarrow> string list" where
  \<comment> \<open>the value of \<^verbatim>\<open>missing\<close> at line 416 for a file with header \<^verbatim>\<open>hdrs\<close>\<close>
  "missing_of requested ci hdrs =
     snd (resolve_requested_columns requested (make_header_map hdrs ci) ci)"


definition retained :: "string list \<Rightarrow> bool \<Rightarrow> string \<Rightarrow> path \<times> string list \<Rightarrow> bool" where
  \<comment> \<open>the file passes line 417 or the policy is not \<^verbatim>\<open>skip\<close>: it reaches line 427\<close>
  "retained requested ci policy f = (missing_of requested ci (snd f) = [] \<or> policy \<noteq> ''skip'')"

definition cnt :: "(nat \<times> nat) list \<Rightarrow> nat \<Rightarrow> nat" where
  \<comment> \<open>\<^verbatim>\<open>c[k]\<close> of a Counter: zero for an absent key\<close>
  "cnt c k = (case map_of c k of None \<Rightarrow> 0 | Some n \<Rightarrow> n)"

definition lookup_key :: "bool \<Rightarrow> string \<Rightarrow> string" where
  \<comment> \<open>line 212\<close>
  "lookup_key ci r = (if ci then str_lower r else r)"

definition add_absent_trace :: "string list \<Rightarrow> dataframe \<Rightarrow> dataframe \<times> string list" where
  \<comment> \<open>the loop of lines 296-298 with a record of the columns for which line 298 runs\<close>
  "add_absent_trace schema_cols df =
     foldl (\<lambda>(d, synthesized) col.
              if col \<notin> set (df_columns d) then (df_setitem_na d col, synthesized @ [col])
              else (d, synthesized))
           (df, []) schema_cols"

definition resolved :: "(string \<rightharpoonup> string) \<Rightarrow> bool \<Rightarrow> string \<Rightarrow> string" where
  \<comment> \<open>the header entry a requested name resolves to, the name itself when there is none\<close>
  "resolved hm ci c = (case hm (lookup_key ci c) of Some h \<Rightarrow> h | None \<Rightarrow> c)"

subsection \<open>Concrete runs\<close>

definition plain_args :: args where
  \<comment> \<open>the defaults of the command line, with the source column switched off\<close>
  "plain_args =
     \<lparr>a_normalize = None, a_columns = None, a_case_insensitive = False,
      a_missing_policy = ''error'', a_schema = ''strict'', a_no_source_col = True,
      a_source_col_name = ''source_file'', a_source_col_mode = ''name'',
      a_dry_run = False, a_no_header = False, a_chunksize = 200000, a_sample_rows = 50,
      a_threads = 4\<rparr>"

definition two_files_env :: environment where
  \<comment> \<open>\<^verbatim>\<open>a.csv\<close> holds the header line \<^verbatim>\<open>id\<close> and no data row, so the reader yields one
      chunk without rows for it; every other file holds \<^verbatim>\<open>id\<close> and the row \<^verbatim>\<open>1\<close>\<close>
  "two_files_env =
     \<lparr>e_readlines = (\<lambda>p. if p = ''a.csv'' then [[CHR ''i'', CHR ''d'', CHR 0x0A]]
                          else [[CHR ''i'', CHR ''d'', CHR 0x0A], [CHR ''1'', CHR 0x0A]]),
      e_csv_sniff = (\<lambda>sample delimiters. None),
      e_csv_rows = (\<lambda>p delim. if p = ''a.csv'' then [[''id'']] else [[''id''], [''1'']]),
      e_read_csv = (\<lambda>p sep chunksize.
                      if p = ''a.csv'' then ([\<lparr>df_cols = [(''id'', [])], df_len = 0\<rparr>], None)
                      else ([\<lparr>df_cols = [(''id'', [Some ''1''])], df_len = 1\<rparr>], None)),
      e_mkdtemp = Inr ''/tmp/concat_norm_0'',
      e_normalize_one = (\<lambda>src target_dir from_delim to_delim. Inr (target_dir @ ''/'' @ path_name src)),
      e_mkdir = None,
      e_store_interrupt = None,
      e_rmtree = (\<lambda>p. True)\<rparr>"

definition empty_fs :: fs where
  "empty_fs = \<lparr>fs_dirs = {}, fs_out = None\<rparr>"

definition id_chunk :: dataframe where
  \<comment> \<open>a chunk with the column \<^verbatim>\<open>id\<close> and the row \<^verbatim>\<open>1\<close>\<close>
  "id_chunk = \<lparr>df_cols = [(''id'', [Some ''1''])], df_len = 1\<rparr>"

definition mixed_env :: environment where
  \<comment> \<open>\<^verbatim>\<open>b.csv\<close> is written with semicolons, every other file with commas; a file named
      \<^verbatim>\<open>b.csv\<close> (the original and its rewritten copy) has the header \<^verbatim>\<open>id, m\<close>, every
      other file \<^verbatim>\<open>id, n\<close>; normalization succeeds for every file\<close>
  "mixed_env =
     \<lparr>e_readlines = (\<lambda>p. if p = ''b.csv'' then [''id;m''] else [''id,n'']),
      e_csv_sniff = (\<lambda>sample delimiters. None),
      e_csv_rows = (\<lambda>p delim. if path_name p = ''b.csv'' then [[''id'', ''m'']] else [[''id'', ''n'']]),
      e_read_csv = (\<lambda>p sep chunksize. ([], None)),
      e_mkdtemp = Inr ''/tmp/concat_norm_0'',
      e_normalize_one = (\<lambda>src target_dir from_delim to_delim. Inr (target_dir @ ''/'' @ path_name src)),
      e_mkdir = None,
      e_store_interrupt = None,
      e_rmtree = (\<lambda>p. True)\<rparr>"

subsection \<open>Schema reconciliation: helper lemmas\<close>

lemma strict_loop_ok:
  "(\<forall>h\<in>set rest. set h = set base) \<Longrightarrow> strict_loop base rest = Inr base"
  by (induction rest) auto

lemma strict_loop_fail:
  "\<exists>h\<in>set rest. set h \<noteq> set base \<Longrightarrow>
   \<exists>pre d post. rest = pre @ d # post \<and> (\<forall>h\<in>set pre. set h = set base) \<and> set d \<noteq> set base
      \<and> strict_loop base rest = Inl (SchemaMismatch base d)"
proof (induction rest)
  case Nil
  then show ?case by simp
next
  case (Cons a rest)
  show ?case
  proof (cases "set a = set base")
    case True
    with Cons.prems have "\<exists>h\<in>set rest. set h \<noteq> set base" by auto
    from Cons.IH[OF this] obtain pre d post where
      h: "rest = pre @ d # post" "\<forall>h\<in>set pre. set h = set base" "set d \<noteq> set base"
         "strict_loop base rest = Inl (SchemaMismatch base d)" by blast
    have "a # rest = (a # pre) @ d # post" using h(1) by simp
    moreover have "\<forall>h\<in>set (a # pre). set h = set base" using h(2) True by simp
    moreover have "strict_loop base (a # rest) = Inl (SchemaMismatch base d)"
      using True h(4) by simp
    ultimately show ?thesis using h(3) by blast
  next
    case False
    have "a # rest = [] @ a # rest" by simp
    moreover have "strict_loop base (a # rest) = Inl (SchemaMismatch base a)"
      using False by simp
    moreover have "\<forall>h\<in>set []. set h = set base" by simp
    ultimately show ?thesis using False by blast
  qed
qed

lemma filter_neq_commute:
  "filter (\<lambda>y. y \<noteq> x) (filter P xs) = filter P (filter (\<lambda>y. y \<noteq> x) xs)"
  by (induction xs) auto

lemma set_first_seen: "set (first_seen xs) = set xs"
  by (induction xs rule: first_seen.induct) auto

lemma distinct_first_seen: "distinct (first_seen xs)"
  by (induction xs rule: first_seen.induct) (auto simp: set_first_seen)

lemma first_seen_append:
  "first_seen (xs @ ys) = first_seen xs @ first_seen (filter (\<lambda>y. y \<notin> set xs) ys)"
proof (induction xs arbitrary: ys rule: first_seen.induct)
  case 1
  then show ?case by simp
next
  case (2 x xs)
  have "filter (\<lambda>y. y \<notin> set (filter (\<lambda>y. y \<noteq> x) xs)) (filter (\<lambda>y. y \<noteq> x) ys)
        = filter (\<lambda>y. y \<notin> set (x # xs)) ys"
    by (induction ys) auto
  then show ?case using 2[of "filter (\<lambda>y. y \<noteq> x) ys"] by simp
qed

lemma union_inner_eq:
  "union_inner hs (set acc, acc) =
     (set acc \<union> set hs, acc @ first_seen (filter (\<lambda>h. h \<notin> set acc) hs))"
proof (induction hs arbitrary: acc)
  case Nil
  then show ?case by simp
next
  case (Cons h hs)
  show ?case
  proof (cases "h \<in> set acc")
    case True
    then show ?thesis using Cons.IH[of acc] by auto
  next
    case False
    have f: "filter (\<lambda>x. x \<notin> set (acc @ [h])) hs
             = filter (\<lambda>y. y \<noteq> h) (filter (\<lambda>h. h \<notin> set acc) hs)"
      by (induction hs) auto
    have "union_inner (h # hs) (set acc, acc) = union_inner hs (set (acc @ [h]), acc @ [h])"
      using False by simp
    also have "\<dots> = (set (acc @ [h]) \<union> set hs,
                      (acc @ [h]) @ first_seen (filter (\<lambda>x. x \<notin> set (acc @ [h])) hs))"
      by (rule Cons.IH)
    finally show ?thesis using False f by auto
  qed
qed

lemma union_loop_eq:
  "union_loop hss (set acc, acc) =
     (set acc \<union> set (concat hss), acc @ first_seen (filter (\<lambda>h. h \<notin> set acc) (concat hss)))"
proof (induction hss arbitrary: acc)
  case Nil
  then show ?case by simp
next
  case (Cons hs hss)
  let ?acc' = "acc @ first_seen (filter (\<lambda>h. h \<notin> set acc) hs)"
  have s: "set ?acc' = set acc \<union> set hs" by (auto simp: set_first_seen)
  have "union_loop (hs # hss) (set acc, acc) = union_loop hss (set ?acc', ?acc')"
    using union_inner_eq[of hs acc] s by simp
  also have "\<dots> = (set ?acc' \<union> set (concat hss),
                    ?acc' @ first_seen (filter (\<lambda>h. h \<notin> set ?acc') (concat hss)))"
    by (rule Cons.IH)
  finally have e: "union_loop (hs # hss) (set acc, acc) =
     (set ?acc' \<union> set (concat hss),
      ?acc' @ first_seen (filter (\<lambda>h. h \<notin> set ?acc') (concat hss)))" .
  have f: "filter (\<lambda>h. h \<notin> set ?acc') zs
      = filter (\<lambda>y. y \<notin> set (filter (\<lambda>h. h \<notin> set acc) hs)) (filter (\<lambda>h. h \<notin> set acc) zs)" for zs
    unfolding s by (induction zs) auto
  have g: "first_seen (filter (\<lambda>h. h \<notin> set acc) (hs @ concat hss))
      = first_seen (filter (\<lambda>h. h \<notin> set acc) hs)
        @ first_seen (filter (\<lambda>h. h \<notin> set ?acc') (concat hss))"
    unfolding f filter_append first_seen_append ..
  have "set ?acc' \<union> set (concat hss) = set acc \<union> set (concat (hs # hss))"
    unfolding s by auto
  moreover have "?acc' @ first_seen (filter (\<lambda>h. h \<notin> set ?acc') (concat hss))
     = acc @ first_seen (filter (\<lambda>h. h \<notin> set acc) (concat (hs # hss)))"
    using g by simp
  ultimately show ?case unfolding e by simp
qed

lemma build_schema_union: "build_schema hss ''union'' = Inr (first_seen (concat hss))"
  using union_loop_eq[of hss "[]"] by (simp add: build_schema_def)

lemma shared_loop_eq: "shared_loop rest s = s \<inter> (\<Inter>h\<in>set rest. set h)"
  by (induction rest arbitrary: s) auto

lemma length_first_seen_ge: "set h \<subseteq> set xs \<Longrightarrow> card (set h) \<le> length (first_seen xs)"
proof -
  assume a: "set h \<subseteq> set xs"
  have "card (set h) \<le> card (set xs)" using a by (simp add: card_mono)
  also have "\<dots> = card (set (first_seen xs))" by (simp add: set_first_seen)
  also have "\<dots> = length (first_seen xs)" by (simp add: distinct_card distinct_first_seen)
  finally show ?thesis .
qed

subsection \<open>Claims on schema reconciliation\<close>

text \<open>
  C2 (as amended). Under the strict policy, for a non-empty list of headers
  \<open>base # rest\<close>: when every header has the same set of names as the first, the schema is
  the first header, in its own order; when some header differs, the run fails with the
  schema-mismatch error that carries the base header and the header of the first file
  whose set differs. The error carries no path and no position: it is the same whichever
  file is the first to differ, as long as that file has the same header.
\<close>

theorem strict_schema:
  "((\<forall>h\<in>set rest. set h = set base) \<longrightarrow> build_schema (base # rest) ''strict'' = Inr base) \<and>
   ((\<exists>h\<in>set rest. set h \<noteq> set base) \<longrightarrow>
      (\<exists>pre d post. rest = pre @ d # post \<and> (\<forall>h\<in>set pre. set h = set base) \<and>
         set d \<noteq> set base \<and>
         build_schema (base # rest) ''strict'' = Inl (SchemaMismatch base d)))"
proof (intro conjI impI)
  assume "\<forall>h\<in>set rest. set h = set base"
  then show "build_schema (base # rest) ''strict'' = Inr base"
    by (simp add: build_schema_def strict_loop_ok)
next
  assume "\<exists>h\<in>set rest. set h \<noteq> set base"
  from strict_loop_fail[OF this]
  show "\<exists>pre d post. rest = pre @ d # post \<and> (\<forall>h\<in>set pre. set h = set base) \<and>
         set d \<noteq> set base \<and>
         build_schema (base # rest) ''strict'' = Inl (SchemaMismatch base d)"
    by (simp add: build_schema_def)
qed

theorem strict_schema_witness:
  "build_schema [[''id'', ''name''], [''name'', ''id'']] ''strict'' = Inr [''id'', ''name''] \<and>
   build_schema [[''id'', ''name''], [''name'', ''id''], [''id'', ''age''], [''x'']] ''strict''
     = Inl (SchemaMismatch [''id'', ''name''] [''id'', ''age''])"
proof -
  have a: "\<forall>h\<in>set [[''name'', ''id'']]. set h = set [''id'', ''name'']" by auto
  have ne: "set [''id'', ''age''] \<noteq> set [''id'', ''name'']"
  proof
    assume "set [''id'', ''age''] = set [''id'', ''name'']"
    then have "''age'' \<in> set [''id'', ''name'']" by (metis list.set_intros(1,2))
    then show False by simp
  qed
  then have b: "\<exists>h\<in>set [[''name'', ''id''], [''id'', ''age''], [''x'']]. set h \<noteq> set [''id'', ''name'']"
    by simp
  from a strict_schema[of "[[''name'', ''id'']]" "[''id'', ''name'']"]
  have 1: "build_schema [[''id'', ''name''], [''name'', ''id'']] ''strict'' = Inr [''id'', ''name'']"
    by blast
  from b strict_schema[of "[[''name'', ''id''], [''id'', ''age''], [''x'']]" "[''id'', ''name'']"]
  obtain d where
    "build_schema [[''id'', ''name''], [''name'', ''id''], [''id'', ''age''], [''x'']] ''strict''
       = Inl (SchemaMismatch [''id'', ''name''] d)" by blast
  moreover have
    "build_schema [[''id'', ''name''], [''name'', ''id''], [''id'', ''age''], [''x'']] ''strict''
       = Inl (SchemaMismatch [''id'', ''name''] [''id'', ''age''])"
    using ne by (simp add: build_schema_def insert_commute del: set_simps) (simp add: insert_commute)
  ultimately show ?thesis using 1 by simp
qed

theorem strict_error_names_no_file:
  "build_schema [[''id''], [''x''], [''id'']] ''strict'' = Inl (SchemaMismatch [''id''] [''x'']) \<and>
   build_schema [[''id''], [''id''], [''x'']] ''strict'' = Inl (SchemaMismatch [''id''] [''x''])"
  by code_simp

text \<open>
  C3 (as amended). Under the union policy the schema holds every column name of every
  input header exactly once, in the order of first occurrence across the files; its length
  is at least the number of distinct names of each header, hence at least the length of
  each header that repeats no name.
\<close>

theorem union_schema:
  "\<exists>cols. build_schema headers_list ''union'' = Inr cols \<and>
     cols = first_seen (concat headers_list) \<and>
     distinct cols \<and>
     set cols = (\<Union>h\<in>set headers_list. set h) \<and>
     (\<forall>h\<in>set headers_list. card (set h) \<le> length cols \<and> (distinct h \<longrightarrow> length h \<le> length cols))"
proof -
  let ?cols = "first_seen (concat headers_list)"
  have "\<forall>h\<in>set headers_list. card (set h) \<le> length ?cols \<and> (distinct h \<longrightarrow> length h \<le> length ?cols)"
  proof
    fix h assume "h \<in> set headers_list"
    then have "set h \<subseteq> set (concat headers_list)" by auto
    then have c: "card (set h) \<le> length ?cols" by (rule length_first_seen_ge)
    then show "card (set h) \<le> length ?cols \<and> (distinct h \<longrightarrow> length h \<le> length ?cols)"
      by (auto simp: distinct_card)
  qed
  then show ?thesis
    by (simp add: build_schema_union distinct_first_seen set_first_seen)
qed

theorem union_schema_witness:
  "build_schema [[''id'', ''name''], [''name'', ''age'', ''id'']] ''union''
     = Inr [''id'', ''name'', ''age'']"
  using union_schema[of "[[''id'', ''name''], [''name'', ''age'', ''id'']]"] by auto

theorem union_count_counterexample:
  "build_schema [[''a'', ''a'']] ''union'' = Inr [''a''] \<and>
   \<not> length [''a'', ''a''] \<le> length [''a'']"
  by (simp add: build_schema_def)

text \<open>
  C4. Under the intersection policy, for a non-empty list of headers \<open>h0 # rest\<close>, the
  operation fails with the empty-intersection error exactly when no name is common to
  all headers; otherwise it returns the elements of the first header that occur in every
  other header, in the first header's order.
\<close>

theorem intersection_schema:
  "(build_schema (h0 # rest) ''intersection'' = Inl EmptyIntersection
      \<longleftrightarrow> (\<Inter>h\<in>set (h0 # rest). set h) = {}) \<and>
   ((\<Inter>h\<in>set (h0 # rest). set h) \<noteq> {} \<longrightarrow>
      build_schema (h0 # rest) ''intersection''
        = Inr (filter (\<lambda>c. \<forall>h\<in>set rest. c \<in> set h) h0))"
proof -
  have s: "shared_loop rest (set h0) = (\<Inter>h\<in>set (h0 # rest). set h)"
    by (simp add: shared_loop_eq)
  have f: "filter (\<lambda>h. h \<in> (\<Inter>h\<in>set (h0 # rest). set h)) h0
           = filter (\<lambda>c. \<forall>h\<in>set rest. c \<in> set h) h0"
    by (rule filter_cong) auto
  show ?thesis
    unfolding build_schema_def using f by (simp add: s Let_def del: set_simps INT_simps)
qed

theorem intersection_schema_witness:
  "build_schema [[''id'', ''name'', ''age''], [''age'', ''id'']] ''intersection''
     = Inr [''id'', ''age'']"
  using intersection_schema[of "[''id'', ''name'', ''age'']" "[[''age'', ''id'']]"] by auto

subsection \<open>Column selection: helper lemmas\<close>

lemma foldl_upd_lookup:
  "foldl (\<lambda>m h. m(f h \<mapsto> h)) m0 hs k =
     (if k \<in> f ` set hs then Some (last (filter (\<lambda>h. f h = k) hs)) else m0 k)"
proof (induction hs arbitrary: m0)
  case Nil
  then show ?case by simp
next
  case (Cons a hs)
  show ?case
  proof (cases "k \<in> f ` set hs")
    case True
    then have "filter (\<lambda>h. f h = k) hs \<noteq> []" by (auto simp: filter_empty_conv)
    then show ?thesis using True Cons.IH[of "m0(f a \<mapsto> a)"] by simp
  next
    case False
    then have "filter (\<lambda>h. f h = k) hs = []" by (auto simp: filter_empty_conv)
    then show ?thesis using False Cons.IH[of "m0(f a \<mapsto> a)"] by auto
  qed
qed

lemma make_header_map_ci:
  "make_header_map hs True k =
     (if k \<in> str_lower ` set hs then Some (last (filter (\<lambda>h. str_lower h = k) hs)) else None)"
  unfolding make_header_map_def using foldl_upd_lookup[of str_lower Map.empty hs k] by simp

lemma make_header_map_cs:
  "make_header_map hs False k = (if k \<in> set hs then Some k else None)"
proof -
  have "k \<in> set hs \<Longrightarrow> last (filter (\<lambda>h. h = k) hs) = k"
  proof -
    assume "k \<in> set hs"
    then have "filter (\<lambda>h. h = k) hs \<noteq> []" by (auto simp: filter_empty_conv)
    then have "last (filter (\<lambda>h. h = k) hs) \<in> set (filter (\<lambda>h. h = k) hs)" by (rule last_in_set)
    then show ?thesis by simp
  qed
  then show ?thesis
    unfolding make_header_map_def using foldl_upd_lookup[of "\<lambda>h. h" Map.empty hs k] by simp
qed

lemma resolve_loop_eq:
  "resolve_loop requested hm ci (found, missing) =
     (found @ map (\<lambda>r. the (hm (if ci then str_lower r else r)))
                 (filter (\<lambda>r. hm (if ci then str_lower r else r) \<noteq> None) requested),
      missing @ filter (\<lambda>r. hm (if ci then str_lower r else r) = None) requested)"
  by (induction requested arbitrary: found missing) (auto split: option.splits)


lemma update_fresh: "p \<notin> fst ` set al \<Longrightarrow> AList.update p v al = al @ [(p, v)]"
  by (induction al) auto

lemma columns_loop_step:
  "map_of pfh p = Some h \<Longrightarrow>
   columns_loop requested ci policy pfh (p # ps) (maps, usable, skipped) =
     (if missing_of requested ci h \<noteq> [] \<and> policy = ''error''
      then Inl (MissingColumns p (missing_of requested ci h))
      else if missing_of requested ci h \<noteq> [] \<and> policy = ''skip''
      then columns_loop requested ci policy pfh ps
             (maps, usable, skipped @ [(path_name p, missing_of requested ci h)])
      else columns_loop requested ci policy pfh ps
             (AList.update p (make_header_map h ci) maps, usable @ [p], skipped))"
  by (simp add: missing_of_def Let_def del: AList.update.simps)

lemma columns_loop_ok:
  assumes "\<forall>(p, h)\<in>set fs. map_of pfh p = Some h"
    and "distinct (map fst fs)"
    and "fst ` set fs \<inter> fst ` set maps = {}"
    and "policy = ''error'' \<longrightarrow> (\<forall>f\<in>set fs. missing_of requested ci (snd f) = [])"
  shows "columns_loop requested ci policy pfh (map fst fs) (maps, usable, skipped) =
           Inr (maps @ map (\<lambda>f. (fst f, make_header_map (snd f) ci))
                         (filter (retained requested ci policy) fs),
                usable @ map fst (filter (retained requested ci policy) fs),
                skipped @ map (\<lambda>f. (path_name (fst f), missing_of requested ci (snd f)))
                            (filter (\<lambda>f. \<not> retained requested ci policy f) fs))"
  using assms
proof (induction fs arbitrary: maps usable skipped)
  case Nil
  then show ?case by simp
next
  case (Cons f fs)
  obtain p h where f: "f = (p, h)" by (cases f)
  have lk: "map_of pfh p = Some h" using Cons.prems(1) f by auto
  have pre1: "\<forall>(p, h)\<in>set fs. map_of pfh p = Some h" using Cons.prems(1) by auto
  have pre2: "distinct (map fst fs)" using Cons.prems(2) by simp
  have pre4: "policy = ''error'' \<longrightarrow> (\<forall>f\<in>set fs. missing_of requested ci (snd f) = [])"
    using Cons.prems(4) by simp
  have noerr: "\<not> (missing_of requested ci h \<noteq> [] \<and> policy = ''error'')"
    using Cons.prems(4) f by auto
  show ?case
  proof (cases "retained requested ci policy f")
    case True
    then have nskip: "\<not> (missing_of requested ci h \<noteq> [] \<and> policy = ''skip'')"
      using f by (auto simp: retained_def)
    have fresh: "p \<notin> fst ` set maps" using Cons.prems(3) f by auto
    have pre3: "fst ` set fs \<inter> fst ` set (maps @ [(p, make_header_map h ci)]) = {}"
      using Cons.prems(2,3) f by auto
    have "columns_loop requested ci policy pfh (map fst (f # fs)) (maps, usable, skipped)
        = columns_loop requested ci policy pfh (map fst fs)
            (maps @ [(p, make_header_map h ci)], usable @ [p], skipped)"
      using noerr nskip fresh f
      by (auto simp: columns_loop_step[OF lk] update_fresh simp del: columns_loop.simps AList.update.simps)
    also note Cons.IH[OF pre1 pre2 pre3 pre4]
    finally show ?thesis using True f by simp
  next
    case False
    then have skip: "missing_of requested ci h \<noteq> [] \<and> policy = ''skip''"
      using f by (auto simp: retained_def)
    have pre3: "fst ` set fs \<inter> fst ` set maps = {}" using Cons.prems(3) by auto
    have "columns_loop requested ci policy pfh (map fst (f # fs)) (maps, usable, skipped)
        = columns_loop requested ci policy pfh (map fst fs)
            (maps, usable, skipped @ [(path_name p, missing_of requested ci h)])"
      using skip f by (simp add: columns_loop_step[OF lk] del: columns_loop.simps)
    also note Cons.IH[OF pre1 pre2 pre3 pre4]
    finally show ?thesis using False f by simp
  qed
qed

lemma columns_loop_error:
  assumes "\<forall>(p, h)\<in>set (pre @ (p, h) # post). map_of pfh p = Some h"
    and "\<forall>f\<in>set pre. missing_of requested ci (snd f) = []"
    and "missing_of requested ci h \<noteq> []"
  shows "columns_loop requested ci ''error'' pfh (map fst (pre @ (p, h) # post)) st =
           Inl (MissingColumns p (missing_of requested ci h))"
  using assms
proof (induction pre arbitrary: st)
  case Nil
  obtain maps usable skipped where st: "st = (maps, usable, skipped)" by (cases st)
  have "map_of pfh p = Some h" using Nil.prems(1) by auto
  then show ?case using Nil.prems(3) st by (simp add: columns_loop_step del: columns_loop.simps)
next
  case (Cons f pre)
  obtain maps usable skipped where st: "st = (maps, usable, skipped)" by (cases st)
  obtain q g where f: "f = (q, g)" by (cases f)
  have lk: "map_of pfh q = Some g" using Cons.prems(1) f by auto
  have m: "missing_of requested ci g = []" using Cons.prems(2) f by auto
  have ih: "columns_loop requested ci ''error'' pfh (map fst (pre @ (p, h) # post)) st' =
           Inl (MissingColumns p (missing_of requested ci h))" for st'
    using Cons.IH[of st'] Cons.prems by auto
  show ?case using m st f ih
    by (simp add: columns_loop_step[OF lk] del: columns_loop.simps AList.update.simps)
qed

lemma map_of_distinct_files:
  "distinct (map fst files) \<Longrightarrow> \<forall>(p, h)\<in>set files. map_of files p = Some h"
  by auto

subsection \<open>Claims on column selection\<close>

text \<open>
  C9. Under case-insensitive matching, when the header holds several names that differ
  only by letter case, a requested name that matches them resolves to the last of them:
  for a header \<open>pre @ h # post\<close> in which \<open>h\<close> folds to the same key as the requested
  name \<open>r\<close> and no later name does, the lookup map sends the key to \<open>h\<close>, whatever
  \<open>pre\<close> holds, and \<open>r\<close> is found as \<open>h\<close>.
\<close>

theorem case_insensitive_last_wins:
  assumes "headers = pre @ h # post"
    and "str_lower h = str_lower r"
    and "\<forall>h'\<in>set post. str_lower h' \<noteq> str_lower r"
  shows "make_header_map headers True (str_lower r) = Some h \<and>
         resolve_requested_columns [r] (make_header_map headers True) True = ([h], [])"
proof -
  have "filter (\<lambda>x. str_lower x = str_lower r) post = []"
    using assms(3) by (auto simp: filter_empty_conv)
  then have "last (filter (\<lambda>x. str_lower x = str_lower r) headers) = h"
    using assms(1,2) by simp
  moreover have "str_lower r \<in> str_lower ` set headers"
    using assms(1,2) by (metis image_eqI in_set_conv_decomp)
  ultimately have m: "make_header_map headers True (str_lower r) = Some h"
    by (simp add: make_header_map_ci)
  then show ?thesis by (simp add: resolve_requested_columns_def)
qed

theorem case_insensitive_last_wins_witness:
  "resolve_requested_columns [''id''] (make_header_map [''ID'', ''x'', ''Id'', ''y''] True) True
     = ([''Id''], [])"
proof -
  have l: "str_lower ''Id'' = str_lower ''id''" "str_lower ''y'' \<noteq> str_lower ''id''"
    by code_simp+
  have "[''ID'', ''x'', ''Id'', ''y''] = [''ID'', ''x''] @ ''Id'' # [''y'']" by simp
  from case_insensitive_last_wins[OF this l(1)] l(2) show ?thesis by simp
qed



subsection \<open>Delimiter sniffing: helper lemmas\<close>

lemma read_lines_loop_props:
  "length (read_lines_loop fh k) \<le> k \<and> (\<forall>l\<in>set (read_lines_loop fh k). l \<noteq> []) \<and>
   (\<exists>rest. fh = read_lines_loop fh k @ rest)"
  by (induction fh k rule: read_lines_loop.induct) auto

lemma read_lines_loop_eq:
  "read_lines_loop fh k = take k (takeWhile (\<lambda>l. l \<noteq> []) fh)"
  by (induction fh k rule: read_lines_loop.induct) auto

lemma length_str_split: "length (str_split d s) = Suc (count_list s d)"
  by (induction s) (auto split: list.splits)

lemma field_counts_eq:
  "field_counts d lines =
     map (\<lambda>l. Suc (count_list (str_strip l) d)) (filter (\<lambda>l. str_strip l \<noteq> []) lines)"
  by (induction lines) (auto simp: Let_def length_str_split)

lemma cnt_counter_add: "cnt (counter_add x c) k = cnt c k + (if k = x then 1 else 0)"
  by (induction x c rule: counter_add.induct) (auto simp: cnt_def)

lemma keys_counter_add: "fst ` set (counter_add x c) = insert x (fst ` set c)"
  by (induction x c rule: counter_add.induct) auto

lemma distinct_counter_add:
  "distinct (map fst c) \<Longrightarrow> distinct (map fst (counter_add x c))"
proof (induction x c rule: counter_add.induct)
  case (1 x)
  then show ?case by simp
next
  case (2 x k c items)
  show ?case
  proof (cases "k = x")
    case True
    then show ?thesis using 2 by simp
  next
    case False
    have "k \<notin> fst ` set (counter_add x items)"
      using 2(2) False by (simp add: keys_counter_add) 
    then show ?thesis using 2 False by simp
  qed
qed

lemma Counter_fold_props:
  "distinct (map fst c0) \<Longrightarrow>
   distinct (map fst (foldl (\<lambda>c x. counter_add x c) c0 xs)) \<and>
   fst ` set (foldl (\<lambda>c x. counter_add x c) c0 xs) = fst ` set c0 \<union> set xs \<and>
   (\<forall>k. cnt (foldl (\<lambda>c x. counter_add x c) c0 xs) k = cnt c0 k + count_list xs k)"
proof (induction xs arbitrary: c0)
  case Nil
  then show ?case by simp
next
  case (Cons x xs)
  have d: "distinct (map fst (counter_add x c0))" using Cons.prems by (rule distinct_counter_add)
  show ?case using Cons.IH[OF d]
    by (auto simp: keys_counter_add cnt_counter_add)
qed

lemma Counter_props:
  "distinct (map fst (Counter xs)) \<and> fst ` set (Counter xs) = set xs \<and>
   (\<forall>k. cnt (Counter xs) k = count_list xs k)"
  using Counter_fold_props[of "[]" xs] by (simp add: Counter_def cnt_def)

lemma Counter_member:
  assumes "(v, c) \<in> set (Counter xs)"
  shows "v \<in> set xs \<and> c = count_list xs v"
proof -
  have "map_of (Counter xs) v = Some c"
    using assms Counter_props[of xs] by simp
  then have "cnt (Counter xs) v = c" by (simp add: cnt_def)
  moreover have "v \<in> fst ` set (Counter xs)" using assms by force
  ultimately show ?thesis using Counter_props[of xs] by simp
qed

lemma Counter_empty: "Counter xs = [] \<longleftrightarrow> xs = []"
proof -
  have "fst ` set (Counter xs) = set xs" using Counter_props[of xs] by simp
  then show ?thesis by (metis image_is_empty set_empty)
qed

lemma max_by_count_props:
  "max_by_count best items \<in> set (best # items) \<and>
   (\<forall>it\<in>set (best # items). snd it \<le> snd (max_by_count best items))"
proof (induction items arbitrary: best)
  case Nil
  then show ?case by simp
next
  case (Cons a items)
  show ?case using Cons.IH[of "if snd best < snd a then a else best"]
    by (auto split: if_splits)
qed

lemma most_common1_props:
  assumes "most_common1 (Counter xs) = Some (v, c)"
  shows "v \<in> set xs \<and> c = count_list xs v \<and> (\<forall>m. count_list xs m \<le> count_list xs v)"
proof -
  obtain it items where ci: "Counter xs = it # items"
    using assms by (auto simp: most_common1_def split: list.splits)
  then have mx: "max_by_count it items = (v, c)"
    using assms by (simp add: most_common1_def)
  have mem: "(v, c) \<in> set (Counter xs)"
    using max_by_count_props[of it items] mx ci by simp
  have le: "\<forall>e\<in>set (Counter xs). snd e \<le> c"
    using max_by_count_props[of it items] mx ci by simp
  have vc: "v \<in> set xs \<and> c = count_list xs v" using Counter_member[OF mem] .
  have "count_list xs m \<le> c" for m
  proof (cases "m \<in> set xs")
    case True
    then have "m \<in> fst ` set (Counter xs)" using Counter_props[of xs] by simp
    then obtain n where n: "(m, n) \<in> set (Counter xs)" by force
    then have "n = count_list xs m" using Counter_member by blast
    then show ?thesis using le n by force
  next
    case False
    then show ?thesis by (simp add: count_list_0_iff)
  qed
  then show ?thesis using vc by simp
qed

lemma delim_score_Some:
  assumes "delim_score d lines = Some (f, v)"
  shows "\<exists>m. v = int m \<and> m \<in> set (field_counts d lines) \<and>
             f = int (count_list (field_counts d lines) m) \<and>
             (\<forall>m'. count_list (field_counts d lines) m' \<le> count_list (field_counts d lines) m)"
proof -
  obtain m c where mc: "most_common1 (Counter (field_counts d lines)) = Some (m, c)"
    and fv: "f = int c" "v = int m"
    using assms by (auto simp: delim_score_def split: option.splits)
  from most_common1_props[OF mc] fv show ?thesis by auto
qed

lemma delim_score_None:
  "delim_score d lines = None \<longleftrightarrow> (\<forall>ln\<in>set lines. str_strip ln = [])"
proof -
  have "delim_score d lines = None \<longleftrightarrow> Counter (field_counts d lines) = []"
    by (auto simp: delim_score_def most_common1_def split: option.splits list.splits)
  also have "\<dots> \<longleftrightarrow> field_counts d lines = []" by (rule Counter_empty)
  also have "\<dots> \<longleftrightarrow> (\<forall>ln\<in>set lines. str_strip ln = [])"
    by (auto simp: field_counts_eq filter_empty_conv)
  finally show ?thesis .
qed

lemma delim_score_positive:
  assumes "delim_score d lines = Some s"
  shows "score_gt s (- 1, - 1)"
proof -
  obtain f v where s: "s = (f, v)" by (cases s)
  from delim_score_Some[OF assms[unfolded s]] show ?thesis
    unfolding s score_gt_def by auto
qed

lemma score_gt_trans: "score_gt a b \<Longrightarrow> score_gt b c \<Longrightarrow> score_gt a c"
  by (auto simp: score_gt_def)

lemma score_gt_trans': "score_gt a b \<Longrightarrow> \<not> score_gt c b \<Longrightarrow> score_gt a c"
  by (auto simp: score_gt_def prod_eq_iff)

lemma sniff_loop_result:
  "(sniff_loop lines cands (b0, s0) = (b0, s0) \<and>
      (\<forall>d\<in>set cands. \<forall>s. delim_score d lines = Some s \<longrightarrow> \<not> score_gt s s0)) \<or>
   (\<exists>pre d post s. cands = pre @ d # post \<and> sniff_loop lines cands (b0, s0) = (Some d, s) \<and>
      delim_score d lines = Some s \<and> score_gt s s0 \<and>
      (\<forall>d'\<in>set pre. \<forall>s'. delim_score d' lines = Some s' \<longrightarrow> score_gt s s') \<and>
      (\<forall>d'\<in>set post. \<forall>s'. delim_score d' lines = Some s' \<longrightarrow> \<not> score_gt s' s))"
  (is "?keep cands b0 s0 \<or> ?win cands b0 s0")
proof (induction cands arbitrary: b0 s0)
  case Nil
  then show ?case by simp
next
  case (Cons c cands)
  show ?case
  proof (cases "\<exists>sc. delim_score c lines = Some sc \<and> score_gt sc s0")
    case True
    then obtain sc where sc: "delim_score c lines = Some sc" "score_gt sc s0" by blast
    have step: "sniff_loop lines (c # cands) (b0, s0) = sniff_loop lines cands (Some c, sc)"
      using sc by simp
    from Cons.IH[of "Some c" sc] show ?thesis
    proof
      assume k: "?keep cands (Some c) sc"
      have "c # cands = [] @ c # cands" by simp
      moreover have "sniff_loop lines (c # cands) (b0, s0) = (Some c, sc)" using step k by simp
      ultimately have "?win (c # cands) b0 s0" using sc k by fastforce
      then show ?thesis ..
    next
      assume "?win cands (Some c) sc"
      then obtain pre d post s where w: "cands = pre @ d # post"
        "sniff_loop lines cands (Some c, sc) = (Some d, s)"
        "delim_score d lines = Some s" "score_gt s sc"
        "\<forall>d'\<in>set pre. \<forall>s'. delim_score d' lines = Some s' \<longrightarrow> score_gt s s'"
        "\<forall>d'\<in>set post. \<forall>s'. delim_score d' lines = Some s' \<longrightarrow> \<not> score_gt s' s"
        by blast
      have e: "c # cands = (c # pre) @ d # post" using w(1) by simp
      have r: "sniff_loop lines (c # cands) (b0, s0) = (Some d, s)" using step w(2) by simp
      have g: "score_gt s s0" using w(4) sc(2) by (rule score_gt_trans)
      have p: "\<forall>d'\<in>set (c # pre). \<forall>s'. delim_score d' lines = Some s' \<longrightarrow> score_gt s s'"
        using w(5) w(4) sc(1) by auto
      have "?win (c # cands) b0 s0" using e r w(3) g p w(6) by blast
      then show ?thesis ..
    qed
  next
    case False
    then have nc: "\<forall>sc. delim_score c lines = Some sc \<longrightarrow> \<not> score_gt sc s0" by blast
    have step: "sniff_loop lines (c # cands) (b0, s0) = sniff_loop lines cands (b0, s0)"
      using nc by (cases "delim_score c lines") auto
    from Cons.IH[of b0 s0] show ?thesis
    proof
      assume k: "?keep cands b0 s0"
      then have "?keep (c # cands) b0 s0" using step nc by simp
      then show ?thesis ..
    next
      assume "?win cands b0 s0"
      then obtain pre d post s where w: "cands = pre @ d # post"
        "sniff_loop lines cands (b0, s0) = (Some d, s)"
        "delim_score d lines = Some s" "score_gt s s0"
        "\<forall>d'\<in>set pre. \<forall>s'. delim_score d' lines = Some s' \<longrightarrow> score_gt s s'"
        "\<forall>d'\<in>set post. \<forall>s'. delim_score d' lines = Some s' \<longrightarrow> \<not> score_gt s' s"
        by blast
      have e: "c # cands = (c # pre) @ d # post" using w(1) by simp
      have r: "sniff_loop lines (c # cands) (b0, s0) = (Some d, s)" using step w(2) by simp
      have "\<forall>s'. delim_score c lines = Some s' \<longrightarrow> score_gt s s'"
        using nc w(4) score_gt_trans' by blast
      then have p: "\<forall>d'\<in>set (c # pre). \<forall>s'. delim_score d' lines = Some s' \<longrightarrow> score_gt s s'"
        using w(5) by auto
      have "?win (c # cands) b0 s0" using e r w(3) w(4) p w(6) by blast
      then show ?thesis ..
    qed
  qed
qed

subsection \<open>Claim on delimiter sniffing\<close>

text \<open>
  C7. The sample of a file is its first \<open>n\<close> lines, cut at the first empty string (the
  end of the file): at most \<open>n\<close> lines, none of them empty, and \<open>sniff_file_delimiter\<close>
  sniffs exactly this sample. When some sampled line is not blank, the sniffer returns a candidate of
  \<open>SNIFF_CANDIDATES\<close> whose score is strictly greater than the score of every earlier
  candidate and not exceeded by the score of any later one, scores being compared as
  pairs; the score of a candidate is (frequency of the modal field count, modal field
  count) over the field counts of the non-blank lines. When every sampled line is blank
  the result is what the dialect sniffer of the csv module answers for the joined sample
  and the same candidates, and the comma when that fails.
\<close>

theorem sniff_delimiter:
  "(read_head_lines fh n = take (nat n) (takeWhile (\<lambda>l. l \<noteq> []) fh) \<and>
    length (read_head_lines fh n) \<le> nat n \<and> (\<forall>l\<in>set (read_head_lines fh n). l \<noteq> []) \<and>
      (\<exists>rest. fh = read_head_lines fh n @ rest)) \<and>
   sniff_file_delimiter E p n =
     sniff_delimiter_from_lines (e_csv_sniff E)
       (take (nat n) (takeWhile (\<lambda>l. l \<noteq> []) (e_readlines E p))) \<and>
   ((\<exists>ln\<in>set lines. str_strip ln \<noteq> []) \<longrightarrow>
      (\<exists>pre d post s. SNIFF_CANDIDATES = pre @ d # post \<and>
         sniff_delimiter_from_lines csv_sniff lines = d \<and>
         delim_score d lines = Some s \<and>
         (\<forall>d'\<in>set pre. \<exists>s'. delim_score d' lines = Some s' \<and> score_gt s s') \<and>
         (\<forall>d'\<in>set post. \<exists>s'. delim_score d' lines = Some s' \<and> \<not> score_gt s' s))) \<and>
   (\<forall>d f v. delim_score d lines = Some (f, v) \<longrightarrow>
      (\<exists>m. v = int m \<and> m \<in> set (field_counts d lines) \<and>
           f = int (count_list (field_counts d lines) m) \<and>
           (\<forall>m'. count_list (field_counts d lines) m' \<le> count_list (field_counts d lines) m))) \<and>
   (\<forall>d. field_counts d lines =
          map (\<lambda>l. length (str_split d (str_strip l))) (filter (\<lambda>l. str_strip l \<noteq> []) lines)) \<and>
   ((\<forall>ln\<in>set lines. str_strip ln = []) \<longrightarrow>
      sniff_delimiter_from_lines csv_sniff lines =
        (case csv_sniff (str_join [CHR 0x0A] lines) SNIFF_CANDIDATES of
           Some d \<Rightarrow> d
         | None \<Rightarrow> CHR '',''))"
proof (intro conjI impI allI)
  show "read_head_lines fh n = take (nat n) (takeWhile (\<lambda>l. l \<noteq> []) fh)"
    by (simp add: read_head_lines_def read_lines_loop_eq)
  show "sniff_file_delimiter E p n =
     sniff_delimiter_from_lines (e_csv_sniff E)
       (take (nat n) (takeWhile (\<lambda>l. l \<noteq> []) (e_readlines E p)))"
    by (simp add: sniff_file_delimiter_def read_head_lines_def read_lines_loop_eq)
  show "length (read_head_lines fh n) \<le> nat n"
    and "\<forall>l\<in>set (read_head_lines fh n). l \<noteq> []"
    and "\<exists>rest. fh = read_head_lines fh n @ rest"
    using read_lines_loop_props[of fh "nat n"] by (simp_all add: read_head_lines_def)
next
  assume nb: "\<exists>ln\<in>set lines. str_strip ln \<noteq> []"
  then have some: "\<And>d. \<exists>s. delim_score d lines = Some s"
    using delim_score_None[of _ lines] by (metis not_Some_eq)
  have ne: "SNIFF_CANDIDATES \<noteq> []" by (simp add: SNIFF_CANDIDATES_def)
  from sniff_loop_result[of lines SNIFF_CANDIDATES None "(- 1, - 1)"]
  show "\<exists>pre d post s. SNIFF_CANDIDATES = pre @ d # post \<and>
         sniff_delimiter_from_lines csv_sniff lines = d \<and>
         delim_score d lines = Some s \<and>
         (\<forall>d'\<in>set pre. \<exists>s'. delim_score d' lines = Some s' \<and> score_gt s s') \<and>
         (\<forall>d'\<in>set post. \<exists>s'. delim_score d' lines = Some s' \<and> \<not> score_gt s' s)"
  proof
    assume k: "sniff_loop lines SNIFF_CANDIDATES (None, - 1, - 1) = (None, - 1, - 1) \<and>
      (\<forall>d\<in>set SNIFF_CANDIDATES. \<forall>s. delim_score d lines = Some s \<longrightarrow> \<not> score_gt s (- 1, - 1))"
    obtain c where c: "c \<in> set SNIFF_CANDIDATES" using ne by (meson last_in_set)
    obtain s where "delim_score c lines = Some s" using some by blast
    then have False using k c delim_score_positive by blast
    then show ?thesis ..
  next
    assume "\<exists>pre d post s. SNIFF_CANDIDATES = pre @ d # post \<and>
       sniff_loop lines SNIFF_CANDIDATES (None, - 1, - 1) = (Some d, s) \<and>
       delim_score d lines = Some s \<and> score_gt s (- 1, - 1) \<and>
       (\<forall>d'\<in>set pre. \<forall>s'. delim_score d' lines = Some s' \<longrightarrow> score_gt s s') \<and>
       (\<forall>d'\<in>set post. \<forall>s'. delim_score d' lines = Some s' \<longrightarrow> \<not> score_gt s' s)"
    then obtain pre d post s where w: "SNIFF_CANDIDATES = pre @ d # post"
       "sniff_loop lines SNIFF_CANDIDATES (None, - 1, - 1) = (Some d, s)"
       "delim_score d lines = Some s"
       "\<forall>d'\<in>set pre. \<forall>s'. delim_score d' lines = Some s' \<longrightarrow> score_gt s s'"
       "\<forall>d'\<in>set post. \<forall>s'. delim_score d' lines = Some s' \<longrightarrow> \<not> score_gt s' s"
      by blast
    have r: "sniff_delimiter_from_lines csv_sniff lines = d"
      using w(2) by (simp add: sniff_delimiter_from_lines_def)
    have p: "\<forall>d'\<in>set pre. \<exists>s'. delim_score d' lines = Some s' \<and> score_gt s s'"
      using w(4) some by blast
    have q: "\<forall>d'\<in>set post. \<exists>s'. delim_score d' lines = Some s' \<and> \<not> score_gt s' s"
      using w(5) some by blast
    show ?thesis using w(1) r w(3) p q by blast
  qed
next
  fix d f v
  assume "delim_score d lines = Some (f, v)"
  then show "\<exists>m. v = int m \<and> m \<in> set (field_counts d lines) \<and>
           f = int (count_list (field_counts d lines) m) \<and>
           (\<forall>m'. count_list (field_counts d lines) m' \<le> count_list (field_counts d lines) m)"
    by (rule delim_score_Some)
next
  fix d
  show "field_counts d lines =
          map (\<lambda>l. length (str_split d (str_strip l))) (filter (\<lambda>l. str_strip l \<noteq> []) lines)"
    by (simp add: field_counts_eq length_str_split)
next
  assume bl: "\<forall>ln\<in>set lines. str_strip ln = []"
  then have none: "\<And>d. delim_score d lines = None" using delim_score_None by blast
  have "sniff_loop lines cands st = st" for cands st
    by (induction cands) (cases st, simp add: none)+
  then show "sniff_delimiter_from_lines csv_sniff lines =
        (case csv_sniff (str_join [CHR 0x0A] lines) SNIFF_CANDIDATES of
           Some d \<Rightarrow> d
         | None \<Rightarrow> CHR '','')"
    by (simp add: sniff_delimiter_from_lines_def)
qed


theorem sniff_delimiter_witness:
  "read_head_lines [''a;b,c'', ''d;e'', ''f;g,h,i'', ''x;y''] 3 = [''a;b,c'', ''d;e'', ''f;g,h,i''] \<and>
   read_head_lines [''a;b,c'', ''d;e'', [], ''x;y''] 3 = [''a;b,c'', ''d;e''] \<and>
   sniff_file_delimiter mixed_env ''b.csv'' 50 = CHR '';'' \<and>
   sniff_delimiter_from_lines (\<lambda>s d. None) [''a;b,c'', ''d;e'', ''f;g,h,i''] = CHR '';'' \<and>
   sniff_delimiter_from_lines (\<lambda>s d. None) ['' '', []] = CHR '',''"
proof -
  let ?L = "[''a;b,c'', ''d;e'', ''f;g,h,i'']"
  note th = sniff_delimiter[of "[''a;b,c'', ''d;e'', ''f;g,h,i'', ''x;y'']" 3 mixed_env "''b.csv''"
      ?L "\<lambda>s d. None"]
  have s1: "read_head_lines [''a;b,c'', ''d;e'', ''f;g,h,i'', ''x;y''] 3 = ?L"
    using th by (simp add: numeral_3_eq_3)
  have s2: "read_head_lines [''a;b,c'', ''d;e'', [], ''x;y''] 3 = [''a;b,c'', ''d;e'']"
    using sniff_delimiter[of "[''a;b,c'', ''d;e'', [], ''x;y'']" 3 mixed_env "''b.csv''"
      ?L "\<lambda>s d. None"] by simp
  have ev: "sniff_delimiter_from_lines (e_csv_sniff mixed_env) [''id;m''] = CHR '';''"
    by code_simp
  have "sniff_file_delimiter mixed_env ''b.csv'' 50 =
     sniff_delimiter_from_lines (e_csv_sniff mixed_env)
       (take (nat 50) (takeWhile (\<lambda>l. l \<noteq> []) (e_readlines mixed_env ''b.csv'')))"
    using sniff_delimiter[of "[]" 50 mixed_env "''b.csv''" ?L "\<lambda>s d. None"] by blast
  also have "e_readlines mixed_env ''b.csv'' = [''id;m'']" by (simp add: mixed_env_def)
  finally have s3: "sniff_file_delimiter mixed_env ''b.csv'' 50 = CHR '';''"
    using ev by simp
  have nb: "str_strip ''d;e'' \<noteq> []" by code_simp
  then have h1: "\<exists>ln\<in>set ?L. str_strip ln \<noteq> []" by simp
  have bl: "str_strip '' '' = []" "str_strip [] = []" by code_simp+
  then have h2: "\<forall>ln\<in>set ['' '', []]. str_strip ln = []" by simp
  from th h1
  obtain d s where "sniff_delimiter_from_lines (\<lambda>s d. None) ?L = d" "delim_score d ?L = Some s"
    by blast
  moreover have s4: "sniff_delimiter_from_lines (\<lambda>s d. None) ?L = CHR '';''" by code_simp
  moreover have s5: "sniff_delimiter_from_lines (\<lambda>s d. None) ['' '', []] = CHR '',''"
    using sniff_delimiter[of "[]" 0 mixed_env "''b.csv''" "['' '', []]" "\<lambda>s d. None"] h2 by simp
  ultimately show ?thesis using s1 s2 s3 by simp
qed

subsection \<open>Merging in requested-columns mode: helper lemmas\<close>

lemma lower_char_idem: "lower_char (lower_char c) = lower_char c"
proof -
  have "of_char c < (256::nat)" by (simp add: of_char_def) 
  then show ?thesis
    by (auto simp: lower_char_def Let_def)
qed

lemma str_lower_idem: "str_lower (str_lower s) = str_lower s"
  by (simp add: str_lower_def lower_char_idem)

lemma add_absent_trace_fst_gen:
  "fst (foldl (\<lambda>(d, synthesized) col.
              if col \<notin> set (df_columns d) then (df_setitem_na d col, synthesized @ [col])
              else (d, synthesized)) (df, tr) cols)
   = foldl (\<lambda>d col. if col \<notin> set (df_columns d) then df_setitem_na d col else d) df cols"
  by (induction cols arbitrary: df tr) auto

lemma add_absent_trace_fst: "fst (add_absent_trace cols df) = add_absent cols df"
  by (simp add: add_absent_trace_def add_absent_def add_absent_trace_fst_gen)

lemma add_absent_trace_none_gen:
  "\<forall>col\<in>set cols. col \<in> set (df_columns df) \<Longrightarrow>
   foldl (\<lambda>(d, synthesized) col.
              if col \<notin> set (df_columns d) then (df_setitem_na d col, synthesized @ [col])
              else (d, synthesized)) (df, tr) cols = (df, tr)"
  by (induction cols) auto

lemma add_absent_trace_none:
  "\<forall>col\<in>set cols. col \<in> set (df_columns df) \<Longrightarrow> add_absent_trace cols df = (df, [])"
  by (simp add: add_absent_trace_def add_absent_trace_none_gen)
lemma missing_none_iff:
  "missing_of requested ci hdrs = [] \<longleftrightarrow>
     (\<forall>r\<in>set requested. make_header_map hdrs ci (lookup_key ci r) \<noteq> None)"
  by (auto simp: missing_of_def resolve_requested_columns_def resolve_loop_eq lookup_key_def
        filter_empty_conv)

lemma header_map_entry:
  assumes "make_header_map hdrs ci k = Some h"
  shows "h \<in> set hdrs \<and> lookup_key ci h = k"
proof (cases ci)
  case True
  let ?fs = "filter (\<lambda>x. str_lower x = k) hdrs"
  from assms True have k: "k \<in> str_lower ` set hdrs" and h: "h = last ?fs"
    by (auto simp: make_header_map_ci split: if_splits)
  from k have "?fs \<noteq> []" by (auto simp: filter_empty_conv)
  then have "last ?fs \<in> set ?fs" by (rule last_in_set)
  then show ?thesis using h True by (simp add: lookup_key_def)
next
  case False
  then show ?thesis using assms by (auto simp: make_header_map_cs lookup_key_def split: if_splits)
qed

lemma read_col_resolved:
  assumes "make_header_map hdrs ci (lookup_key ci c) = Some h"
  shows "read_cols_of (make_header_map hdrs ci) [c] = [h]"
proof (cases ci)
  case False
  then have "h = c" "make_header_map hdrs ci c = Some c"
    using assms by (auto simp: make_header_map_cs lookup_key_def split: if_splits)
  then show ?thesis by (simp add: read_cols_of_def)
next
  case True
  let ?hm = "make_header_map hdrs ci"
  have l: "?hm (str_lower c) = Some h" using assms True by (simp add: lookup_key_def)
  show ?thesis
  proof (cases "?hm c")
    case None
    then show ?thesis using l by (simp add: read_cols_of_def)
  next
    case (Some h')
    from header_map_entry[OF Some] True have "str_lower h' = c" by (simp add: lookup_key_def)
    then have "str_lower c = c" using str_lower_idem by metis
    then have "h' = h" using l Some by simp
    then show ?thesis using Some by (simp add: read_cols_of_def)
  qed
qed

lemma read_cols_of_map:
  "read_cols_of hm cols = concat (map (\<lambda>c. read_cols_of hm [c]) cols)"
  by (induction cols) (auto simp: read_cols_of_def)

lemma read_cols_resolved:
  assumes "missing_of requested ci hdrs = []"
  shows "read_cols_of (make_header_map hdrs ci) requested
           = map (resolved (make_header_map hdrs ci) ci) requested"
proof -
  have "\<forall>c\<in>set requested. read_cols_of (make_header_map hdrs ci) [c]
           = [resolved (make_header_map hdrs ci) ci c]"
  proof
    fix c assume "c \<in> set requested"
    then obtain h where h: "make_header_map hdrs ci (lookup_key ci c) = Some h"
      using assms missing_none_iff by blast
    show "read_cols_of (make_header_map hdrs ci) [c] = [resolved (make_header_map hdrs ci) ci c]"
      using read_col_resolved[OF h] h by (simp add: resolved_def)
  qed
  then have "concat (map (\<lambda>c. read_cols_of (make_header_map hdrs ci) [c]) requested)
      = concat (map (\<lambda>c. [resolved (make_header_map hdrs ci) ci c]) requested)"
    by (metis (mono_tags, lifting) map_eq_conv)
  also have "\<dots> = map (resolved (make_header_map hdrs ci) ci) requested"
    by (induction requested) auto
  finally show ?thesis using read_cols_of_map by metis
qed

lemma resolved_props:
  assumes "missing_of requested ci hdrs = []" and "c \<in> set requested"
  shows "resolved (make_header_map hdrs ci) ci c \<in> set hdrs \<and>
         lookup_key ci (resolved (make_header_map hdrs ci) ci c) = lookup_key ci c"
proof -
  obtain h where h: "make_header_map hdrs ci (lookup_key ci c) = Some h"
    using assms missing_none_iff by blast
  from header_map_entry[OF h] h show ?thesis by (simp add: resolved_def)
qed

lemma resolved_inj:
  assumes "missing_of requested ci hdrs = []"
    and "inj_on (lookup_key ci) (set requested)"
  shows "inj_on (resolved (make_header_map hdrs ci) ci) (set requested)"
proof (rule inj_onI)
  fix x y
  assume x: "x \<in> set requested" and y: "y \<in> set requested"
    and e: "resolved (make_header_map hdrs ci) ci x = resolved (make_header_map hdrs ci) ci y"
  have "lookup_key ci x = lookup_key ci y"
    using resolved_props[OF assms(1) x] resolved_props[OF assms(1) y] e by metis
  then show "x = y" using assms(2) x y by (simp add: inj_on_def)
qed

lemma df_getitem_present:
  assumes "set labels \<subseteq> set (df_columns df)"
  shows "\<exists>d. df_getitem df labels = Inr d \<and> set (df_columns d) = set labels \<and> df_len d = df_len df"
proof -
  have f: "filter (\<lambda>l. l \<notin> set (df_columns df)) labels = []"
    using assms by (auto simp: filter_empty_conv)
  let ?d = "df\<lparr>df_cols := concat (map (\<lambda>l. filter (\<lambda>c. fst c = l) (df_cols df)) labels)\<rparr>"
  have "df_getitem df labels = Inr ?d" using f by (simp add: df_getitem_def)
  moreover have "set (df_columns ?d) = set labels"
    using assms by (force simp: df_columns_def)
  ultimately show ?thesis by simp
qed

lemma rename_fold_lookup:
  "foldl (\<lambda>m (outcol, filecol). if filecol \<in> S then m(filecol \<mapsto> outcol) else m) m0
         (map (\<lambda>c. (c, g c)) cols) k =
     (if k \<in> S \<and> k \<in> g ` set cols then Some (last (filter (\<lambda>c. g c = k) cols)) else m0 k)"
proof (induction cols arbitrary: m0)
  case Nil
  then show ?case by simp
next
  case (Cons a cols)
  show ?case
  proof (cases "k \<in> g ` set cols")
    case True
    then have "filter (\<lambda>c. g c = k) cols \<noteq> []" by (auto simp: filter_empty_conv)
    then show ?thesis using True Cons.IH by simp
  next
    case False
    then have "filter (\<lambda>c. g c = k) cols = []" by (auto simp: filter_empty_conv)
    then show ?thesis using False Cons.IH by auto
  qed
qed

lemma zip_map_self: "zip cols (map g cols) = map (\<lambda>c. (c, g c)) cols"
  by (induction cols) auto

lemma rename_map_inj:
  assumes "inj_on g (set cols)" and "c \<in> set cols" and "g c \<in> set (df_columns df)"
  shows "rename_map_of (zip cols (map g cols)) df (g c) = Some c"
proof -
  let ?fs = "filter (\<lambda>x. g x = g c) cols"
  have ne: "?fs \<noteq> []" using assms(2) by (auto simp: filter_empty_conv)
  then have "last ?fs \<in> set ?fs" by (rule last_in_set)
  then have "last ?fs \<in> set cols \<and> g (last ?fs) = g c" by simp
  then have "last ?fs = c" using assms(1,2) by (simp add: inj_on_def)
  then show ?thesis
    using assms(2,3) rename_fold_lookup[of "set (df_columns df)" Map.empty g cols "g c"]
    by (simp add: rename_map_of_def zip_map_self)
qed

lemma df_columns_rename:
  "df_columns (df_rename rm df) =
     map (\<lambda>n. case rm n of Some n' \<Rightarrow> n' | None \<Rightarrow> n) (df_columns df)"
  by (simp add: df_rename_def df_columns_def)

lemma select_requested_covers:
  assumes "inj_on g (set schema_cols)"
    and "g ` set schema_cols \<subseteq> set (df_columns chunk)"
    and "policy \<noteq> ''fillna''"
  shows "\<exists>df. select_requested schema_cols (map g schema_cols) (Some policy) chunk = Inr df \<and>
              set schema_cols \<subseteq> set (df_columns df)"
proof -
  have p: "filter (\<lambda>c. c \<in> set (df_columns chunk)) (map g schema_cols) = map g schema_cols"
    using assms(2) by (auto simp: filter_id_conv)
  have "set (map g schema_cols) \<subseteq> set (df_columns chunk)" using assms(2) by simp
  from df_getitem_present[OF this] obtain d where
    d: "df_getitem chunk (map g schema_cols) = Inr d" "set (df_columns d) = g ` set schema_cols"
    by auto
  let ?rm = "rename_map_of (zip schema_cols (map g schema_cols)) d"
  have s: "select_requested schema_cols (map g schema_cols) (Some policy) chunk
             = Inr (df_rename ?rm d)"
    using p d(1) assms(3) by (simp add: select_requested_def)
  have "set schema_cols \<subseteq> set (df_columns (df_rename ?rm d))"
  proof
    fix c assume c: "c \<in> set schema_cols"
    then have gc: "g c \<in> set (df_columns d)" using d(2) by simp
    have "?rm (g c) = Some c" using rename_map_inj[OF assms(1) c gc] .
    then have "(case ?rm (g c) of Some n' \<Rightarrow> n' | None \<Rightarrow> g c) = c" by simp
    then show "c \<in> set (df_columns (df_rename ?rm d))"
      unfolding df_columns_rename using gc by (metis (mono_tags, lifting) image_eqI list.set_map)
  qed
  then show ?thesis using s by blast
qed

lemma map_of_files_map:
  "distinct (map fst xs) \<Longrightarrow> f \<in> set xs \<Longrightarrow>
   map_of (map (\<lambda>f. (fst f, F (snd f))) xs) (fst f) = Some (F (snd f))"
  by (induction xs) (auto simp: rev_image_eqI)

lemma select_columns_Inr:
  assumes "policy = ''error'' \<or> policy = ''skip''"
    and "distinct (map fst files)"
    and "select_columns requested ci policy files (map fst files) = Inr (maps, usable, schema_cols)"
  shows "maps = map (\<lambda>f. (fst f, make_header_map (snd f) ci))
                  (filter (\<lambda>f. missing_of requested ci (snd f) = []) files) \<and>
         usable = map fst (filter (\<lambda>f. missing_of requested ci (snd f) = []) files) \<and>
         schema_cols = requested"
proof -
  have lk: "\<forall>(p, h)\<in>set files. map_of files p = Some h"
    using map_of_distinct_files[OF assms(2)] .
  have noerr: "policy = ''error'' \<longrightarrow> (\<forall>f\<in>set files. missing_of requested ci (snd f) = [])"
  proof (intro impI; rule ccontr)
    assume e: "policy = ''error''"
      and "\<not> (\<forall>f\<in>set files. missing_of requested ci (snd f) = [])"
    then have "\<exists>f\<in>set files. missing_of requested ci (snd f) \<noteq> []" by blast
    from split_list_first_prop[OF this] obtain pre f post where
      s: "files = pre @ f # post" "missing_of requested ci (snd f) \<noteq> []"
         "\<forall>y\<in>set pre. \<not> missing_of requested ci (snd y) \<noteq> []" by blast
    obtain p h where f: "f = (p, h)" by (cases f)
    have "columns_loop requested ci ''error'' files (map fst (pre @ (p, h) # post)) ([], [], [])
            = Inl (MissingColumns p (missing_of requested ci h))"
      by (rule columns_loop_error) (use lk s f in auto)
    then show False using assms(3) e s(1) f by (simp add: select_columns_def)
  qed
  have r': "filter (retained requested ci policy) files
              = filter (\<lambda>f. missing_of requested ci (snd f) = []) files"
  proof (cases "policy = ''skip''")
    case True
    then show ?thesis by (auto simp: retained_def intro: filter_cong)
  next
    case False
    then have "policy = ''error''" using assms(1) by simp
    then show ?thesis using noerr by (auto simp: retained_def intro: filter_cong)
  qed
  have "columns_loop requested ci policy files (map fst files) ([], [], []) =
     Inr ([] @ map (\<lambda>f. (fst f, make_header_map (snd f) ci))
                         (filter (retained requested ci policy) files),
                [] @ map fst (filter (retained requested ci policy) files),
                [] @ map (\<lambda>f. (path_name (fst f), missing_of requested ci (snd f)))
                            (filter (\<lambda>f. \<not> retained requested ci policy f) files))"
    by (rule columns_loop_ok) (use assms(2) lk noerr in auto)
  then show ?thesis using assms(3) unfolding r'
    by (auto simp: select_columns_def split: if_splits)
qed

text \<open>
  Away from name collisions the merge needs no synthesized column under \<open>error\<close> or
  \<open>skip\<close>: a file that reaches the merge resolves every requested name, and when no two
  distinct requested names have the same lookup key and the chunk carries the columns of
  the header, every schema column is present after the renaming of lines 290-295.
\<close>

lemma resolved_columns_present:
  assumes "policy = ''error'' \<or> policy = ''skip''"
    and "distinct (map fst files)"
    and "select_columns requested ci policy files (map fst files) = Inr (maps, usable, schema_cols)"
    and "p \<in> set usable"
  shows "\<exists>hdrs hm. (p, hdrs) \<in> set files \<and> missing_of requested ci hdrs = [] \<and>
           map_of maps p = Some hm \<and> hm = make_header_map hdrs ci \<and>
           (\<forall>chunk. inj_on (lookup_key ci) (set requested) \<and> set hdrs \<subseteq> set (df_columns chunk) \<longrightarrow>
              (\<exists>df. select_requested schema_cols (read_cols_of hm schema_cols) (Some policy) chunk
                      = Inr df \<and>
                    snd (add_absent_trace schema_cols df) = []))"
proof -
  let ?ok = "filter (\<lambda>f. missing_of requested ci (snd f) = []) files"
  from select_columns_Inr[OF assms(1,2,3)] have
    m: "maps = map (\<lambda>f. (fst f, make_header_map (snd f) ci)) ?ok"
    and u: "usable = map fst ?ok" and sc: "schema_cols = requested" by auto
  from assms(4) u obtain f where f: "f \<in> set ?ok" "fst f = p" by auto
  obtain hdrs where fh: "f = (p, hdrs)" using f(2) by (cases f) auto
  have mem: "(p, hdrs) \<in> set files" and mis: "missing_of requested ci hdrs = []"
    using f(1) fh by auto
  have d: "distinct (map fst ?ok)" using assms(2) by (simp add: distinct_map_filter)
  have mp: "map_of maps p = Some (make_header_map hdrs ci)"
    using map_of_files_map[OF d f(1), of "\<lambda>h. make_header_map h ci"] m fh by simp
  let ?hm = "make_header_map hdrs ci"
  have "\<forall>chunk. inj_on (lookup_key ci) (set requested) \<and> set hdrs \<subseteq> set (df_columns chunk) \<longrightarrow>
              (\<exists>df. select_requested schema_cols (read_cols_of ?hm schema_cols) (Some policy) chunk
                      = Inr df \<and>
                    snd (add_absent_trace schema_cols df) = [])"
  proof (intro allI impI)
    fix chunk
    assume a: "inj_on (lookup_key ci) (set requested) \<and> set hdrs \<subseteq> set (df_columns chunk)"
    have rc: "read_cols_of ?hm requested = map (resolved ?hm ci) requested"
      using read_cols_resolved[OF mis] .
    have inj: "inj_on (resolved ?hm ci) (set requested)"
      using resolved_inj[OF mis] a by blast
    have sub: "resolved ?hm ci ` set requested \<subseteq> set (df_columns chunk)"
      using resolved_props[OF mis] a by blast
    have nf: "policy \<noteq> ''fillna''" using assms(1) by auto
    from select_requested_covers[OF inj sub nf] obtain df where
      df: "select_requested requested (map (resolved ?hm ci) requested) (Some policy) chunk = Inr df"
          "set requested \<subseteq> set (df_columns df)" by blast
    have "add_absent_trace requested df = (df, [])"
      by (rule add_absent_trace_none) (use df(2) in auto)
    then show "\<exists>df. select_requested schema_cols (read_cols_of ?hm schema_cols) (Some policy) chunk
                      = Inr df \<and> snd (add_absent_trace schema_cols df) = []"
      using df(1) rc sc by auto
  qed
  then show ?thesis using mem mis mp by blast
qed

subsection \<open>Claims on the merge\<close>

text \<open>
  C10 (the code departs from the claim). The claim says that under \<open>error\<close> or \<open>skip\<close>
  line 298 never runs. In this run matching is case-insensitive, the request is
  \<open>id ID\<close> and the header is \<open>id\<close>: nothing is missing, both names resolve to the file
  column \<open>id\<close>, and the rename map of lines 290-294, a dictionary keyed by file column,
  keeps only the last of them. After the renaming no column is called \<open>id\<close>, line 298
  fills it with nulls, and the output has the columns \<open>id, ID, ID\<close>.
\<close>

theorem null_synthesized_under_error:
  "fst (run two_files_env
          (plain_args\<lparr>a_columns := Some [''id'', ''ID''], a_case_insensitive := True,
                       a_missing_policy := ''error''\<rparr>) [''b.csv''] empty_fs) = None \<and>
   fs_out (snd (run two_files_env
          (plain_args\<lparr>a_columns := Some [''id'', ''ID''], a_case_insensitive := True,
                       a_missing_policy := ''error''\<rparr>) [''b.csv''] empty_fs))
     = Some [Header [''id'', ''ID'', ''ID''], Row [None, Some ''1'', Some ''1'']] \<and>
   fs_out (snd (run two_files_env
          (plain_args\<lparr>a_columns := Some [''id'', ''ID''], a_case_insensitive := True,
                       a_missing_policy := ''skip''\<rparr>) [''b.csv''] empty_fs))
     = Some [Header [''id'', ''ID'', ''ID''], Row [None, Some ''1'', Some ''1'']] \<and>
   missing_of [''id'', ''ID''] True [''id''] = [] \<and>
   select_requested [''id'', ''ID''] (read_cols_of (make_header_map [''id''] True) [''id'', ''ID''])
       (Some ''error'') id_chunk
     = Inr \<lparr>df_cols = [(''ID'', [Some ''1'']), (''ID'', [Some ''1''])], df_len = 1\<rparr> \<and>
   snd (add_absent_trace [''id'', ''ID'']
          \<lparr>df_cols = [(''ID'', [Some ''1'']), (''ID'', [Some ''1''])], df_len = 1\<rparr>) = [''id'']"
  by code_simp

text \<open>
  C1 (the code departs from the claim). The claim asks for the header exactly once. In
  this run the first file holds a header line and no data row, so the reader yields one
  chunk without rows for it: the header is written with that chunk and, the running row
  total still being zero, once more with the first chunk of the second file.
\<close>

theorem header_written_twice:
  "run two_files_env plain_args [''a.csv'', ''b.csv''] empty_fs
     = (None, \<lparr>fs_dirs = {},
                fs_out = Some [Header [''id''], Header [''id''], Row [Some ''1'']]\<rparr>)"
  by code_simp

text \<open>
  C6 (the code departs from the claim). The claim asks for a null in every requested
  column the header lacks. In this run matching is case-sensitive, the request is \<open>ID\<close>
  and the header is \<open>id\<close>: the selection of \<open>run\<close> counts \<open>ID\<close> as missing (under
  \<open>error\<close> the same input aborts), yet under \<open>fillna\<close> the merge reads the column \<open>id\<close>
  through the lower-case fallback of lines 264-270 and writes its value under \<open>ID\<close>.
\<close>

theorem fillna_reads_case_variant:
  "missing_of [''ID''] False [''id''] = [''ID''] \<and>
   run two_files_env (plain_args\<lparr>a_columns := Some [''ID''], a_missing_policy := ''fillna''\<rparr>)
       [''b.csv''] empty_fs
     = (None, \<lparr>fs_dirs = {}, fs_out = Some [Header [''ID''], Row [Some ''1'']]\<rparr>) \<and>
   fst (run two_files_env (plain_args\<lparr>a_columns := Some [''ID''], a_missing_policy := ''error''\<rparr>)
          [''b.csv''] empty_fs)
     = Some (MissingColumns ''b.csv'' [''ID''])"
  by code_simp

subsection \<open>The scratch workspace: helper lemmas\<close>

lemma normalize_phase_dirs:
  "normalize_phase E ar paths pfd pfh f = (res, tmp, f1) \<Longrightarrow>
   set_option tmp \<subseteq> fs_dirs f1 \<and>
   fs_dirs f \<subseteq> fs_dirs f1 \<and>
   fs_dirs f1 \<subseteq> fs_dirs f \<union> (case e_mkdtemp E of Inl e \<Rightarrow> {} | Inr ws \<Rightarrow> {ws}) \<and>
   (e_store_interrupt E = None \<longrightarrow> fs_dirs f1 = fs_dirs f \<union> set_option tmp)"
  by (auto simp: normalize_phase_def Let_def split: if_splits option.splits sum.splits)

lemma merge_phase_dirs:
  "merge_phase E ar paths pfd pfh f = (raised, f2) \<Longrightarrow> fs_dirs f2 = fs_dirs f"
  by (auto simp: merge_phase_def split: if_splits option.splits sum.splits prod.splits)

lemma run_try_dirs:
  assumes "run_try E ar paths pfd pfh f = (raised, tmp, f1)"
  shows "set_option tmp \<subseteq> fs_dirs f1 \<and>
         fs_dirs f \<subseteq> fs_dirs f1 \<and>
         fs_dirs f1 \<subseteq> fs_dirs f \<union> (case e_mkdtemp E of Inl e \<Rightarrow> {} | Inr ws \<Rightarrow> {ws}) \<and>
         (e_store_interrupt E = None \<longrightarrow> fs_dirs f1 = fs_dirs f \<union> set_option tmp)"
proof -
  obtain res t f0 where n: "normalize_phase E ar paths pfd pfh f = (res, t, f0)"
    by (cases "normalize_phase E ar paths pfd pfh f") auto
  note d0 = normalize_phase_dirs[OF n]
  show ?thesis
  proof (cases res)
    case (Inl e)
    then have "tmp = t" "f1 = f0" using assms n by (simp_all add: run_try_def)
    then show ?thesis using d0 by simp
  next
    case (Inr x)
    obtain ps d h where x: "x = (ps, d, h)" by (cases x)
    obtain r f2 where m: "merge_phase E ar ps d h f0 = (r, f2)"
      by (cases "merge_phase E ar ps d h f0") auto
    have e: "fs_dirs f2 = fs_dirs f0" using merge_phase_dirs[OF m] .
    have "tmp = t" "f1 = f2" using assms n Inr x m by (simp_all add: run_try_def)
    then show ?thesis using d0 e by simp
  qed
qed

lemma cleanup_dirs:
  "fs_dirs (cleanup E tmp f1) = fs_dirs f1 - {ws \<in> set_option tmp. e_rmtree E ws}"
  by (auto simp: cleanup_def split: option.splits)

subsection \<open>Claim on the scratch workspace\<close>

text \<open>
  C8 (as amended). However the body of the \<open>try\<close> ends (normally, by the return of a dry
  run, by a validation failure, by the error of the worker pool or by an exception raised
  in a library call), it has added no directory but the one \<open>mkdtemp\<close> created; when the
  path of that directory has been stored in \<open>tmp_workspace\<close>, the directory exists at
  that moment and the \<open>finally\<close> clause removes it exactly when \<open>rmtree\<close> succeeds, a
  failed removal being ignored. When the store is not interrupted and removals succeed,
  the directories after \<open>run\<close> are those before it, without the workspace.
\<close>

theorem scratch_workspace_removed:
  "(\<forall>pfd pfh raised tmp f1.
      run_try E ar paths pfd pfh f = (raised, tmp, f1) \<longrightarrow>
        set_option tmp \<subseteq> fs_dirs f1 \<and>
        fs_dirs f1 \<subseteq> fs_dirs f \<union> (case e_mkdtemp E of Inl e \<Rightarrow> {} | Inr ws \<Rightarrow> {ws}) \<and>
        fs_dirs (cleanup E tmp f1) = fs_dirs f1 - {ws \<in> set_option tmp. e_rmtree E ws} \<and>
        (\<forall>ws. tmp = Some ws \<and> e_rmtree E ws \<longrightarrow> ws \<notin> fs_dirs (cleanup E tmp f1))) \<and>
   (e_store_interrupt E = None \<and> (\<forall>ws. e_rmtree E ws) \<longrightarrow>
      (\<exists>tmp. fs_dirs (snd (run E ar paths f)) = fs_dirs f - set_option tmp))"
proof (intro conjI allI impI)
  fix pfd pfh raised tmp f1
  assume a: "run_try E ar paths pfd pfh f = (raised, tmp, f1)"
  show "set_option tmp \<subseteq> fs_dirs f1" using run_try_dirs[OF a] by simp
  show "fs_dirs f1 \<subseteq> fs_dirs f \<union> (case e_mkdtemp E of Inl e \<Rightarrow> {} | Inr ws \<Rightarrow> {ws})"
    using run_try_dirs[OF a] by simp
  show "fs_dirs (cleanup E tmp f1) = fs_dirs f1 - {ws \<in> set_option tmp. e_rmtree E ws}"
    by (rule cleanup_dirs)
  fix ws
  assume "tmp = Some ws \<and> e_rmtree E ws"
  then show "ws \<notin> fs_dirs (cleanup E tmp f1)" by (simp add: cleanup_dirs)
next
  assume h: "e_store_interrupt E = None \<and> (\<forall>ws. e_rmtree E ws)"
  show "\<exists>tmp. fs_dirs (snd (run E ar paths f)) = fs_dirs f - set_option tmp"
  proof (cases "paths = []")
    case True
    then have "fs_dirs (snd (run E ar paths f)) = fs_dirs f - set_option None"
      by (simp add: run_def)
    then show ?thesis ..
  next
    case False
    obtain pfd pfh where s: "sniff_files E (a_sample_rows ar) paths ([], []) = (pfd, pfh)"
      by (cases "sniff_files E (a_sample_rows ar) paths ([], [])") auto
    obtain raised tmp f1 where t: "run_try E ar paths pfd pfh f = (raised, tmp, f1)"
      by (cases "run_try E ar paths pfd pfh f") auto
    have "fs_dirs f1 = fs_dirs f \<union> set_option tmp" using run_try_dirs[OF t] h by simp
    moreover have "{ws \<in> set_option tmp. e_rmtree E ws} = set_option tmp" using h by auto
    ultimately have "fs_dirs (cleanup E tmp f1) = fs_dirs f - set_option tmp"
      by (auto simp: cleanup_dirs)
    then have "fs_dirs (snd (run E ar paths f)) = fs_dirs f - set_option tmp"
      using False s t by (simp add: run_def)
    then show ?thesis ..
  qed
qed

theorem scratch_workspace_removed_witness:
  "run_try mixed_env (plain_args\<lparr>a_normalize := Some ''comma''\<rparr>) [''a.csv'', ''b.csv'']
        [(''a.csv'', CHR '',''), (''b.csv'', CHR '';'')]
        [(''a.csv'', [''id'', ''n'']), (''b.csv'', [''id'', ''m''])] empty_fs
     = (Some (SchemaMismatch [''id'', ''n''] [''id'', ''m'']), Some ''/tmp/concat_norm_0'',
        \<lparr>fs_dirs = {''/tmp/concat_norm_0''}, fs_out = None\<rparr>) \<and>
   ''/tmp/concat_norm_0'' \<notin> fs_dirs (cleanup mixed_env (Some ''/tmp/concat_norm_0'')
              \<lparr>fs_dirs = {''/tmp/concat_norm_0''}, fs_out = None\<rparr>) \<and>
   run mixed_env (plain_args\<lparr>a_normalize := Some ''comma''\<rparr>) [''a.csv'', ''b.csv''] empty_fs
     = (Some (SchemaMismatch [''id'', ''n''] [''id'', ''m'']), empty_fs) \<and>
   run mixed_env (plain_args\<lparr>a_normalize := Some ''comma'', a_threads := 0\<rparr>)
       [''a.csv'', ''b.csv''] empty_fs
     = (Some BadMaxWorkers, empty_fs)"
proof -
  have t: "run_try mixed_env (plain_args\<lparr>a_normalize := Some ''comma''\<rparr>) [''a.csv'', ''b.csv'']
        [(''a.csv'', CHR '',''), (''b.csv'', CHR '';'')]
        [(''a.csv'', [''id'', ''n'']), (''b.csv'', [''id'', ''m''])] empty_fs
     = (Some (SchemaMismatch [''id'', ''n''] [''id'', ''m'']), Some ''/tmp/concat_norm_0'',
        \<lparr>fs_dirs = {''/tmp/concat_norm_0''}, fs_out = None\<rparr>)"
    by code_simp
  have r: "run mixed_env (plain_args\<lparr>a_normalize := Some ''comma''\<rparr>) [''a.csv'', ''b.csv''] empty_fs
     = (Some (SchemaMismatch [''id'', ''n''] [''id'', ''m'']), empty_fs)"
    by code_simp
  have r0: "run mixed_env (plain_args\<lparr>a_normalize := Some ''comma'', a_threads := 0\<rparr>)
       [''a.csv'', ''b.csv''] empty_fs
     = (Some BadMaxWorkers, empty_fs)"
    by code_simp
  have ok: "Some ''/tmp/concat_norm_0'' = Some ''/tmp/concat_norm_0'' \<and>
            e_rmtree mixed_env ''/tmp/concat_norm_0''"
    by (simp add: mixed_env_def)
  note th = scratch_workspace_removed[of mixed_env "plain_args\<lparr>a_normalize := Some ''comma''\<rparr>"
      "[''a.csv'', ''b.csv'']" empty_fs, THEN conjunct1, rule_format, OF t,
      THEN conjunct2, THEN conjunct2, THEN conjunct2, rule_format, OF ok]
  show ?thesis by (rule conjI[OF t conjI[OF th conjI[OF r r0]]])
qed

theorem scratch_workspace_counterexample:
  "fs_dirs (snd (run (mixed_env\<lparr>e_rmtree := (\<lambda>p. False)\<rparr>)
                   (plain_args\<lparr>a_normalize := Some ''comma''\<rparr>) [''a.csv'', ''b.csv''] empty_fs))
     = {''/tmp/concat_norm_0''} \<and>
   fs_dirs (snd (run (mixed_env\<lparr>e_store_interrupt := Some (External ''KeyboardInterrupt'')\<rparr>)
                   (plain_args\<lparr>a_normalize := Some ''comma''\<rparr>) [''a.csv'', ''b.csv''] empty_fs))
     = {''/tmp/concat_norm_0''}"
  by code_simp

end
